theory Spec2Isabelle
  imports Complex_Main
begin

section \<open>The navigation engine (GameLogic)\<close>

text \<open>
  The sources hold two versions of the class \<^verbatim>\<open>GameLogic\<close>. This section and the next
  embed the one with the randomized depth-first maze and the breadth-first distance; the
  other version, with the corridor carve and the Manhattan distance, is embedded further
  down. The two versions share the data model and the text of \<^verbatim>\<open>movePlayer\<close>; they
  differ in the \<^verbatim>\<open>getDistanceToGoal\<close> that \<^verbatim>\<open>movePlayer\<close> calls.
\<close>

subsection \<open>Data model\<close>

text \<open>
  A grid is \<^verbatim>\<open>number[][]\<close>, a list of rows; \<^verbatim>\<open>maze[y][x]\<close> is the cell in row \<open>y\<close>,
  column \<open>x\<close>. Cells hold numbers; the engine compares them with the two constants
  below. TypeScript numbers are modelled as integers. The fields \<^verbatim>\<open>x\<close> and \<^verbatim>\<open>y\<close> of a
  position are \<open>pos_x\<close> and \<open>pos_y\<close>.
\<close>

type_synonym Maze = "int list list"

definition CELL_EMPTY :: int where
  "CELL_EMPTY = 0"

definition CELL_WALL :: int where
  "CELL_WALL = 1"

record Position =
  pos_x :: int
  pos_y :: int

record GameState =
  playerPosition :: Position
  goalPosition :: Position
  maze :: Maze
  gameWon :: bool
  moveCount :: int

datatype Direction = north | south | east | west

record MoveOutcome =
  success :: bool
  hitWall :: bool
  isCorrectDirection :: bool
  distanceToGoal :: int

text \<open>
  The exceptions of the source become values. \<open>TypeError\<close> is what JavaScript throws
  when a property of \<^verbatim>\<open>undefined\<close> is read or written, as in \<^verbatim>\<open>maze[0].length\<close> on an
  empty grid or \<^verbatim>\<open>maze[y][x] = v\<close> on a missing row. \<open>SparseRow\<close> is not an exception:
  it marks a store that would leave a gap in a row (an index beyond the row's
  length), a grid this model does not represent.
\<close>

datatype error = TypeError | SparseRow

text \<open>
  \<^verbatim>\<open>maze[y][x]\<close> as a read: \<open>None\<close> stands for \<^verbatim>\<open>undefined\<close> (a column outside the
  row). Every read of the source comes after a test that the row exists.
\<close>

definition readCell :: "Maze \<Rightarrow> int \<Rightarrow> int \<Rightarrow> int option" where
  "readCell m cx cy =
     (if 0 \<le> cy \<and> cy < int (length m) \<and> 0 \<le> cx \<and> cx < int (length (m ! nat cy))
      then Some (m ! nat cy ! nat cx) else None)"

subsection \<open>Moves\<close>

definition getNewPosition :: "GameState \<Rightarrow> Direction \<Rightarrow> Position" where
  "getNewPosition s d =
     (let p = playerPosition s in
      case d of
        north \<Rightarrow> p\<lparr>pos_y := pos_y p - 1\<rparr>
      | south \<Rightarrow> p\<lparr>pos_y := pos_y p + 1\<rparr>
      | east \<Rightarrow> p\<lparr>pos_x := pos_x p + 1\<rparr>
      | west \<Rightarrow> p\<lparr>pos_x := pos_x p - 1\<rparr>)"

text \<open>
  \<^verbatim>\<open>pos.x >= 0 && pos.x < maze[0].length && pos.y >= 0 && pos.y < maze.length\<close>:
  the second conjunct reads \<^verbatim>\<open>maze[0].length\<close> and throws on an empty grid, unless
  the first conjunct has already decided.
\<close>

definition isValidPosition :: "GameState \<Rightarrow> Position \<Rightarrow> error + bool" where
  "isValidPosition s p =
     (if \<not> pos_x p \<ge> 0 then Inr False
      else if maze s = [] then Inl TypeError
      else Inr (pos_x p < int (length (hd (maze s))) \<and>
                pos_y p \<ge> 0 \<and> pos_y p < int (length (maze s))))"

text \<open>\<^verbatim>\<open>getDistance\<close>: the Manhattan distance of two positions.\<close>

definition getDistance :: "Position \<Rightarrow> Position \<Rightarrow> int" where
  "getDistance pos1 pos2 = \<bar>pos_x pos1 - pos_x pos2\<bar> + \<bar>pos_y pos1 - pos_y pos2\<bar>"

subsection \<open>Breadth-first search\<close>

text \<open>
  \<^verbatim>\<open>visited\<close> is a matrix of booleans with one row per grid row and \<^verbatim>\<open>maze[0].length\<close>
  entries per row; the queue holds \<^verbatim>\<open>{x, y, dist}\<close> triples, \<^verbatim>\<open>shift\<close> takes the head and
  \<^verbatim>\<open>push\<close> appends.
\<close>

type_synonym Visited = "bool list list"

type_synonym QueueItem = "int \<times> int \<times> int"

definition directions :: "(int \<times> int) list" where
  "directions = [(0, -1), (0, 1), (1, 0), (-1, 0)]"

text \<open>
  \<^verbatim>\<open>visited[ny][nx]\<close> as a read. The source reads it only for \<open>0 \<le> nx < width\<close> and
  \<open>0 \<le> ny < height\<close>, where the matrix has an entry; \<open>None\<close> says that it has none.
\<close>

definition visitedAt :: "Visited \<Rightarrow> int \<Rightarrow> int \<Rightarrow> bool option" where
  "visitedAt v cx cy =
     (if 0 \<le> cy \<and> cy < int (length v) \<and> 0 \<le> cx \<and> cx < int (length (v ! nat cy))
      then Some (v ! nat cy ! nat cx) else None)"

definition markVisited :: "Visited \<Rightarrow> int \<Rightarrow> int \<Rightarrow> Visited" where
  "markVisited v cx cy = v[nat cy := (v ! nat cy)[nat cx := True]]"

text \<open>
  The inner \<^verbatim>\<open>for (const {dx, dy} of directions)\<close> loop for the dequeued item
  \<open>(cx, cy, dst)\<close>: a neighbour that is in bounds, EMPTY and not yet visited is marked
  and appended to the queue. A missing entry of \<open>visited\<close> is reported as \<open>TypeError\<close>
  (reading a property of \<^verbatim>\<open>undefined\<close>); \<open>getDistanceToGoal\<close> never gets there, since the
  matrix it builds has an entry wherever the bounds test passes.
\<close>

fun scanDirections ::
  "Maze \<Rightarrow> int \<Rightarrow> int \<Rightarrow> QueueItem \<Rightarrow> (int \<times> int) list \<Rightarrow> Visited \<Rightarrow> QueueItem list
     \<Rightarrow> error + (Visited \<times> QueueItem list)" where
  "scanDirections m w h item [] v q = Inr (v, q)"
| "scanDirections m w h item ((dx, dy) # ds) v q =
     (case item of (cx, cy, dst) \<Rightarrow>
        let nx = cx + dx; ny = cy + dy in
        if nx \<ge> 0 \<and> nx < w \<and> ny \<ge> 0 \<and> ny < h \<and> readCell m nx ny = Some CELL_EMPTY
        then (case visitedAt v nx ny of
                None \<Rightarrow> Inl TypeError
              | Some True \<Rightarrow> scanDirections m w h item ds v q
              | Some False \<Rightarrow>
                  scanDirections m w h item ds (markVisited v nx ny) (q @ [(nx, ny, dst + 1)]))
        else scanDirections m w h item ds v q)"

definition unvisited :: "Visited \<Rightarrow> nat" where
  "unvisited v = sum_list (map (\<lambda>row. length (filter Not row)) v)"

lemma unvisited_update:
  assumes "i < length v"
  shows "unvisited (v[i := r]) + length (filter Not (v ! i)) = unvisited v + length (filter Not r)"
  using assms unfolding unvisited_def
proof (induction v arbitrary: i)
  case Nil
  then show ?case by simp
next
  case (Cons a v)
  then show ?case by (cases i) auto
qed

lemma filter_Not_update:
  assumes "j < length r" "\<not> r ! j"
  shows "Suc (length (filter Not (r[j := True]))) = length (filter Not r)"
  using assms
proof (induction r arbitrary: j)
  case Nil
  then show ?case by simp
next
  case (Cons a r)
  then show ?case by (cases j) auto
qed

lemma unvisited_markVisited:
  assumes "visitedAt v cx cy = Some False"
  shows "Suc (unvisited (markVisited v cx cy)) = unvisited v"
proof -
  from assms have b: "nat cy < length v" "nat cx < length (v ! nat cy)" "\<not> v ! nat cy ! nat cx"
    by (auto simp: visitedAt_def split: if_splits)
  from unvisited_update[OF b(1), of "(v ! nat cy)[nat cx := True]"]
       filter_Not_update[OF b(2) b(3)]
  show ?thesis by (simp add: markVisited_def)
qed

lemma scanDirections_measure:
  "scanDirections m w h item ds v q = Inr (v', q') \<Longrightarrow>
     2 * unvisited v' + length q' \<le> 2 * unvisited v + length q"
proof (induction ds arbitrary: v q)
  case Nil
  then show ?case by simp
next
  case (Cons d ds)
  obtain dx dy where d: "d = (dx, dy)" by (cases d)
  obtain cx cy dst where item: "item = (cx, cy, dst)" by (cases item)
  show ?case
  proof (cases "cx + dx \<ge> 0 \<and> cx + dx < w \<and> cy + dy \<ge> 0 \<and> cy + dy < h
                 \<and> readCell m (cx + dx) (cy + dy) = Some CELL_EMPTY")
    case False
    with Cons.prems d item have "scanDirections m w h item ds v q = Inr (v', q')"
      by (auto simp: Let_def)
    then show ?thesis by (rule Cons.IH)
  next
    case True
    show ?thesis
    proof (cases "visitedAt v (cx + dx) (cy + dy)")
      case None
      with True Cons.prems d item show ?thesis by (simp add: Let_def)
    next
      case (Some b)
      show ?thesis
      proof (cases b)
        case True
        with \<open>cx + dx \<ge> 0 \<and> _\<close> Some Cons.prems d item
        have "scanDirections m w h item ds v q = Inr (v', q')"
          by (simp add: Let_def)
        then show ?thesis by (rule Cons.IH)
      next
        case False
        with \<open>cx + dx \<ge> 0 \<and> _\<close> Some Cons.prems d item
        have "scanDirections m w h item ds (markVisited v (cx + dx) (cy + dy))
                (q @ [(cx + dx, cy + dy, dst + 1)]) = Inr (v', q')"
          by (simp add: Let_def)
        from Cons.IH[OF this] unvisited_markVisited[of v "cx + dx" "cy + dy"] Some False
        show ?thesis by simp
      qed
    qed
  qed
qed

text \<open>
  The \<^verbatim>\<open>while (queue.length > 0)\<close> loop: the head is taken off; if it is the goal its
  \<^verbatim>\<open>dist\<close> is returned, otherwise its neighbours are scanned. An empty queue ends the
  loop and the function returns 9999.
\<close>

function bfsLoop ::
  "Maze \<Rightarrow> int \<Rightarrow> int \<Rightarrow> Position \<Rightarrow> Visited \<Rightarrow> QueueItem list \<Rightarrow> error + int" where
  "bfsLoop m w h g v [] = Inr 9999"
| "bfsLoop m w h g v ((cx, cy, dst) # q) =
     (if cx = pos_x g \<and> cy = pos_y g then Inr dst
      else case scanDirections m w h (cx, cy, dst) directions v q of
             Inl e \<Rightarrow> Inl e
           | Inr (v', q') \<Rightarrow> bfsLoop m w h g v' q')"
  by pat_completeness auto

termination
proof (relation "measure (\<lambda>(m, w, h, g, v, q). 2 * unvisited v + length q)", goal_cases)
  case 1
  then show ?case by simp
next
  case (2 m w h g v cx cy dst q x2 v' q')
  then have "scanDirections m w h (cx, cy, dst) directions v q = Inr (v', q')"
    by simp
  from scanDirections_measure[OF this] show ?case by simp
qed

text \<open>
  \<^verbatim>\<open>getDistanceToGoal\<close>: \<^verbatim>\<open>maze[0].length\<close> throws on an empty grid;
  \<^verbatim>\<open>visited[playerPosition.y][playerPosition.x] = true\<close> throws when the player's row
  is outside the matrix. When only the player's column is outside, JavaScript stores the
  value under an index (or property) that no later read uses: every later read has
  \<open>0 \<le> nx < width\<close>; the model leaves the matrix as it is.
\<close>

definition getDistanceToGoal :: "GameState \<Rightarrow> error + int" where
  "getDistanceToGoal s =
     (let p = playerPosition s; g = goalPosition s; m = maze s in
      if m = [] then Inl TypeError
      else
        let w = int (length (hd m)); h = int (length m);
            visited = replicate (nat h) (replicate (nat w) False)
        in if \<not> (0 \<le> pos_y p \<and> pos_y p < h) then Inl TypeError
           else
             let visited' = (if 0 \<le> pos_x p \<and> pos_x p < w
                             then markVisited visited (pos_x p) (pos_y p) else visited)
             in bfsLoop m w h g visited' [(pos_x p, pos_y p, 0)])"

subsection \<open>movePlayer\<close>

text \<open>
  The call returns the outcome (or the exception) and leaves the engine in a state; both
  are returned. An exception is thrown before any field is written, so the state that
  goes with an error is the old one.
\<close>

definition movePlayer :: "GameState \<Rightarrow> Direction \<Rightarrow> (error + MoveOutcome) \<times> GameState" where
  "movePlayer s d =
     (let newPos = getNewPosition s d in
      case isValidPosition s newPos of
        Inl e \<Rightarrow> (Inl e, s)
      | Inr valid \<Rightarrow>
          let hit = (\<not> valid \<or> readCell (maze s) (pos_x newPos) (pos_y newPos) = Some CELL_WALL) in
          if hit then
            (case getDistanceToGoal s of
               Inl e \<Rightarrow> (Inl e, s)
             | Inr currentDistance \<Rightarrow>
                 (Inr \<lparr>success = False, hitWall = True, isCorrectDirection = False,
                       distanceToGoal = currentDistance\<rparr>, s))
          else
            (case getDistanceToGoal s of
               Inl e \<Rightarrow> (Inl e, s)
             | Inr currentDistance \<Rightarrow>
                 let newDistance = getDistance newPos (goalPosition s);
                     correct = (newDistance < currentDistance);
                     s1 = s\<lparr>playerPosition := newPos, moveCount := moveCount s + 1\<rparr>;
                     s2 = (if pos_x newPos = pos_x (goalPosition s) \<and>
                              pos_y newPos = pos_y (goalPosition s)
                           then s1\<lparr>gameWon := True\<rparr> else s1)
                 in (Inr \<lparr>success = True, hitWall = False, isCorrectDirection = correct,
                          distanceToGoal = newDistance\<rparr>, s2)))"

section \<open>Maze generation: the randomized depth-first carve\<close>

text \<open>
  \<^verbatim>\<open>maze[cy][cx] = val\<close> as a store. A missing row is \<^verbatim>\<open>undefined\<close> and the store throws.
  Inside the row the element is replaced; at index \<^verbatim>\<open>row.length\<close> JavaScript appends; a
  negative index names a property and changes no element; an index further out would
  leave a gap in the row, which the model reports as \<open>SparseRow\<close>.
\<close>

definition storeCell :: "Maze \<Rightarrow> int \<Rightarrow> int \<Rightarrow> int \<Rightarrow> error + Maze" where
  "storeCell m cx cy val =
     (if \<not> (0 \<le> cy \<and> cy < int (length m)) then Inl TypeError
      else
        let row = m ! nat cy in
        if 0 \<le> cx \<and> cx < int (length row) then Inr (m[nat cy := row[nat cx := val]])
        else if cx = int (length row) then Inr (m[nat cy := row @ [val]])
        else if cx < 0 then Inr m
        else Inl SparseRow)"

text \<open>
  \<^verbatim>\<open>[directions[i], directions[j]] = [directions[j], directions[i]]\<close>, and the shuffle loop
  \<^verbatim>\<open>for (let i = directions.length - 1; i > 0; i--)\<close>. The random source is a parameter:
  \<open>rnd k\<close> stands for the \<open>k\<close>-th draw, and \<^verbatim>\<open>Math.floor(Math.random() * (i + 1))\<close>,
  a value in \<open>0..i\<close>, is \<open>rnd k mod (i + 1)\<close>. Every sequence of draws is some \<open>rnd\<close>.
\<close>

definition swap :: "'a list \<Rightarrow> nat \<Rightarrow> nat \<Rightarrow> 'a list" where
  "swap xs i j = (xs[i := xs ! j])[j := xs ! i]"

fun shuffleFrom :: "(nat \<Rightarrow> nat) \<Rightarrow> nat \<Rightarrow> nat \<Rightarrow> 'a list \<Rightarrow> 'a list" where
  "shuffleFrom rnd k 0 ds = ds"
| "shuffleFrom rnd k (Suc i) ds =
     shuffleFrom rnd (Suc k) i (swap ds (Suc i) (rnd k mod (Suc i + 1)))"

text \<open>
  The \<^verbatim>\<open>for (const [dx, dy] of directions)\<close> scan: the first direction whose target is
  strictly inside the outer ring and still a wall.
\<close>

fun firstCarvable ::
  "Maze \<Rightarrow> int \<Rightarrow> int \<Rightarrow> int \<Rightarrow> int \<Rightarrow> (int \<times> int) list \<Rightarrow> (int \<times> int) option" where
  "firstCarvable m w h cx cy [] = None"
| "firstCarvable m w h cx cy ((dx, dy) # ds) =
     (let nx = cx + dx; ny = cy + dy in
      if nx > 0 \<and> nx < w - 1 \<and> ny > 0 \<and> ny < h - 1 \<and> readCell m nx ny = Some CELL_WALL
      then Some (dx, dy)
      else firstCarvable m w h cx cy ds)"

definition wallCount :: "Maze \<Rightarrow> nat" where
  "wallCount m = sum_list (map (\<lambda>row. length (filter (\<lambda>c. c = CELL_WALL) row)) m)"

lemma wallCount_update:
  assumes "i < length m"
  shows "wallCount (m[i := r]) + length (filter (\<lambda>c. c = CELL_WALL) (m ! i))
           = wallCount m + length (filter (\<lambda>c. c = CELL_WALL) r)"
  using assms unfolding wallCount_def
proof (induction m arbitrary: i)
  case Nil
  then show ?case by simp
next
  case (Cons a m)
  then show ?case by (cases i) auto
qed

lemma filter_wall_update:
  assumes "j < length r"
  shows "length (filter (\<lambda>c. c = CELL_WALL) (r[j := CELL_EMPTY])) +
           (if r ! j = CELL_WALL then 1 else 0) = length (filter (\<lambda>c. c = CELL_WALL) r)"
  using assms
proof (induction r arbitrary: j)
  case Nil
  then show ?case by simp
next
  case (Cons a r)
  then show ?case by (cases j) (auto simp: CELL_EMPTY_def CELL_WALL_def)
qed

lemma wallCount_storeCell:
  assumes "storeCell m cx cy CELL_EMPTY = Inr m'"
  shows "wallCount m' + (if readCell m cx cy = Some CELL_WALL then 1 else 0) = wallCount m"
proof -
  from assms have cyb: "0 \<le> cy" "cy < int (length m)"
    by (auto simp: storeCell_def split: if_splits)
  then have i: "nat cy < length m" by auto
  show ?thesis
  proof (cases "0 \<le> cx \<and> cx < int (length (m ! nat cy))")
    case True
    then have j: "nat cx < length (m ! nat cy)" by auto
    from True cyb assms have m': "m' = m[nat cy := (m ! nat cy)[nat cx := CELL_EMPTY]]"
      by (auto simp: storeCell_def Let_def)
    from True cyb have rc: "readCell m cx cy = Some (m ! nat cy ! nat cx)"
      by (simp add: readCell_def)
    from wallCount_update[OF i, of "(m ! nat cy)[nat cx := CELL_EMPTY]"] filter_wall_update[OF j]
    show ?thesis unfolding m' rc by (auto split: if_splits)
  next
    case False
    then have rc: "readCell m cx cy = None" by (auto simp: readCell_def)
    show ?thesis
    proof (cases "cx = int (length (m ! nat cy))")
      case True
      with False cyb assms have m': "m' = m[nat cy := (m ! nat cy) @ [CELL_EMPTY]]"
        by (auto simp: storeCell_def Let_def)
      from wallCount_update[OF i, of "(m ! nat cy) @ [CELL_EMPTY]"]
      show ?thesis unfolding m' rc by (simp add: CELL_EMPTY_def CELL_WALL_def)
    next
      case F2: False
      with False cyb assms have "m' = m"
        by (auto simp: storeCell_def Let_def split: if_splits)
      then show ?thesis by (simp add: rc)
    qed
  qed
qed

lemma firstCarvable_Some:
  "firstCarvable m w h cx cy ds = Some (dx, dy) \<Longrightarrow>
     (dx, dy) \<in> set ds \<and> cx + dx > 0 \<and> cx + dx < w - 1 \<and> cy + dy > 0 \<and> cy + dy < h - 1
       \<and> readCell m (cx + dx) (cy + dy) = Some CELL_WALL"
  by (induction ds) (auto simp: Let_def split: if_splits)

text \<open>
  The \<^verbatim>\<open>while (stack.length > 0)\<close> loop. The stack is a list with its top at the head.
  \<open>directions\<close> is shuffled in place, so each round starts from the order the previous
  round left. \<^verbatim>\<open>dx / 2\<close> is \<open>dx div 2\<close>: the offsets are \<open>0\<close> and \<open>2\<close> or \<open>-2\<close>.
\<close>

function dfsLoop ::
  "(nat \<Rightarrow> nat) \<Rightarrow> nat \<Rightarrow> int \<Rightarrow> int \<Rightarrow> (int \<times> int) list \<Rightarrow> Maze \<Rightarrow> (int \<times> int) list
     \<Rightarrow> error + Maze" where
  "dfsLoop rnd k w h dirs m [] = Inr m"
| "dfsLoop rnd k w h dirs m ((cx, cy) # stack) =
     (let dirs' = shuffleFrom rnd k (length dirs - 1) dirs;
          k' = k + (length dirs - 1)
      in case firstCarvable m w h cx cy dirs' of
           None \<Rightarrow> dfsLoop rnd k' w h dirs' m stack
         | Some (dx, dy) \<Rightarrow>
             (case storeCell m (cx + dx) (cy + dy) CELL_EMPTY of
                Inl e \<Rightarrow> Inl e
              | Inr m1 \<Rightarrow>
                  (case storeCell m1 (cx + dx div 2) (cy + dy div 2) CELL_EMPTY of
                     Inl e \<Rightarrow> Inl e
                   | Inr m2 \<Rightarrow>
                       dfsLoop rnd k' w h dirs' m2 ((cx + dx, cy + dy) # (cx, cy) # stack))))"
  by pat_completeness auto

termination
proof (relation "measure (\<lambda>(rnd, k, w, h, dirs, m, stack). 2 * wallCount m + length stack)",
    goal_cases)
  case 1
  then show ?case by simp
next
  case 2
  then show ?case by simp
next
  case (3 rnd k w h dirs m cx cy stack dirs' k' x2 dx dy m1 m2)
  from 3(3,4) have "readCell m (cx + dx) (cy + dy) = Some CELL_WALL"
    using firstCarvable_Some by blast
  with wallCount_storeCell[OF 3(5)] wallCount_storeCell[OF 3(6)]
  have "Suc (wallCount m2) \<le> wallCount m" by (auto split: if_splits)
  then show ?case by simp
qed

definition dirs0 :: "(int \<times> int) list" where
  "dirs0 = [(0, -2), (0, 2), (2, 0), (-2, 0)]"

definition generateMazeDFS :: "(nat \<Rightarrow> nat) \<Rightarrow> Maze \<Rightarrow> int \<Rightarrow> int \<Rightarrow> error + Maze" where
  "generateMazeDFS rnd m startX startY =
     (if m = [] then Inl TypeError
      else
        let w = int (length (hd m)); h = int (length m) in
        case storeCell m startX startY CELL_EMPTY of
          Inl e \<Rightarrow> Inl e
        | Inr m1 \<Rightarrow> dfsLoop rnd 0 w h dirs0 m1 [(startX, startY)])"

definition generateMaze :: "(nat \<Rightarrow> nat) \<Rightarrow> int \<Rightarrow> int \<Rightarrow> error + Maze" where
  "generateMaze rnd width height =
     (let width' = (if width mod 2 = 0 then width + 1 else width);
          height' = (if height mod 2 = 0 then height + 1 else height);
          m = replicate (nat height') (replicate (nat width') CELL_WALL)
      in generateMazeDFS rnd m 1 1)"

text \<open>
  The constructor: the goal is computed from the requested \<^verbatim>\<open>width\<close> and \<^verbatim>\<open>height\<close>, the
  grid from the values \<open>generateMaze\<close> adjusts.
\<close>

definition constructorGameLogic :: "(nat \<Rightarrow> nat) \<Rightarrow> int \<Rightarrow> int \<Rightarrow> error + GameState" where
  "constructorGameLogic rnd width height =
     (case generateMaze rnd width height of
        Inl e \<Rightarrow> Inl e
      | Inr m \<Rightarrow>
          Inr \<lparr>playerPosition = \<lparr>pos_x = 1, pos_y = 1\<rparr>,
               goalPosition = \<lparr>pos_x = width - 2, pos_y = height - 2\<rparr>,
               maze = m, gameWon = False, moveCount = 0\<rparr>)"

text \<open>
  \<^verbatim>\<open>resetGame\<close> reads the sizes from the current grid (\<^verbatim>\<open>maze[0].length\<close> throws on an
  empty grid), generates a new grid and takes the goal from those sizes.
\<close>

definition resetGame :: "(nat \<Rightarrow> nat) \<Rightarrow> GameState \<Rightarrow> error + GameState" where
  "resetGame rnd s =
     (if maze s = [] then Inl TypeError
      else
        let width = int (length (hd (maze s))); height = int (length (maze s)) in
        case generateMaze rnd width height of
          Inl e \<Rightarrow> Inl e
        | Inr m \<Rightarrow>
            Inr \<lparr>playerPosition = \<lparr>pos_x = 1, pos_y = 1\<rparr>,
                 goalPosition = \<lparr>pos_x = width - 2, pos_y = height - 2\<rparr>,
                 maze = m, gameWon = False, moveCount = 0\<rparr>)"

section \<open>Maze generation: the corridor carve\<close>

text \<open>
  The other version of the engine builds the grid without randomness:
  \<^verbatim>\<open>generateMaze\<close> fills the grid with walls and calls \<^verbatim>\<open>createPath\<close>; its constructor
  takes the goal from the same \<^verbatim>\<open>width\<close> and \<^verbatim>\<open>height\<close>, which it does not adjust. The two
  functions are named \<open>generateMazeCorridor\<close> and \<open>constructorCorridor\<close> here. A
  \<^verbatim>\<open>for (let x = a; x < b; x++)\<close> loop of stores is the list of its targets, stored in
  order; \<^verbatim>\<open>Math.floor(width / 2)\<close> is \<open>width div 2\<close>.
\<close>

fun storeAll :: "Maze \<Rightarrow> (int \<times> int) list \<Rightarrow> int \<Rightarrow> error + Maze" where
  "storeAll m [] val = Inr m"
| "storeAll m ((cx, cy) # cs) val =
     (case storeCell m cx cy val of
        Inl e \<Rightarrow> Inl e
      | Inr m' \<Rightarrow> storeAll m' cs val)"

definition createPath :: "Maze \<Rightarrow> int \<Rightarrow> int \<Rightarrow> error + Maze" where
  "createPath m width height =
     (case storeAll m (concat (map (\<lambda>x. [(x, 1), (x, height - 2)]) [1..width - 2])) CELL_EMPTY of
        Inl e \<Rightarrow> Inl e
      | Inr m1 \<Rightarrow>
     (case storeAll m1 (concat (map (\<lambda>y. [(1, y), (width - 2, y)]) [1..height - 2])) CELL_EMPTY of
        Inl e \<Rightarrow> Inl e
      | Inr m2 \<Rightarrow>
     (let midX = width div 2; midY = height div 2 in
      case storeAll m2 (map (\<lambda>x. (x, midY)) [2..width - 3]) CELL_EMPTY of
        Inl e \<Rightarrow> Inl e
      | Inr m3 \<Rightarrow>
     (case storeAll m3 (map (\<lambda>y. (midX, y)) [2..height - 3]) CELL_EMPTY of
        Inl e \<Rightarrow> Inl e
      | Inr m4 \<Rightarrow>
          if width > 5 \<and> height > 5
          then (case storeCell m4 3 2 CELL_WALL of
                  Inl e \<Rightarrow> Inl e
                | Inr m5 \<Rightarrow> storeCell m5 (width - 4) (height - 3) CELL_WALL)
          else Inr m4))))"

definition generateMazeCorridor :: "int \<Rightarrow> int \<Rightarrow> error + Maze" where
  "generateMazeCorridor width height =
     createPath (replicate (nat height) (replicate (nat width) CELL_WALL)) width height"

definition constructorCorridor :: "int \<Rightarrow> int \<Rightarrow> error + GameState" where
  "constructorCorridor width height =
     (case generateMazeCorridor width height of
        Inl e \<Rightarrow> Inl e
      | Inr m \<Rightarrow>
          Inr \<lparr>playerPosition = \<lparr>pos_x = 1, pos_y = 1\<rparr>,
               goalPosition = \<lparr>pos_x = width - 2, pos_y = height - 2\<rparr>,
               maze = m, gameWon = False, moveCount = 0\<rparr>)"

subsection \<open>movePlayer of the corridor version\<close>

text \<open>
  In this version \<^verbatim>\<open>getDistanceToGoal\<close> is the Manhattan distance from the player to the
  goal; it reads no grid cell and throws nothing. \<^verbatim>\<open>movePlayer\<close> has the text of the other
  version and calls this \<^verbatim>\<open>getDistanceToGoal\<close>, in the blocked branch and in the other;
  the only exception left is the one of \<^verbatim>\<open>isValidPosition\<close> on a grid without rows. The
  helpers \<^verbatim>\<open>getNewPosition\<close>, \<^verbatim>\<open>isValidPosition\<close> and \<^verbatim>\<open>getDistance\<close> have the same
  text in both versions.
\<close>

definition getDistanceToGoalCorridor :: "GameState \<Rightarrow> int" where
  "getDistanceToGoalCorridor s = getDistance (playerPosition s) (goalPosition s)"

definition movePlayerCorridor ::
  "GameState \<Rightarrow> Direction \<Rightarrow> (error + MoveOutcome) \<times> GameState" where
  "movePlayerCorridor s d =
     (let newPos = getNewPosition s d in
      case isValidPosition s newPos of
        Inl e \<Rightarrow> (Inl e, s)
      | Inr valid \<Rightarrow>
          let hit = (\<not> valid \<or> readCell (maze s) (pos_x newPos) (pos_y newPos) = Some CELL_WALL) in
          if hit then
            (Inr \<lparr>success = False, hitWall = True, isCorrectDirection = False,
                  distanceToGoal = getDistanceToGoalCorridor s\<rparr>, s)
          else
            let currentDistance = getDistanceToGoalCorridor s;
                newDistance = getDistance newPos (goalPosition s);
                correct = (newDistance < currentDistance);
                s1 = s\<lparr>playerPosition := newPos, moveCount := moveCount s + 1\<rparr>;
                s2 = (if pos_x newPos = pos_x (goalPosition s) \<and>
                         pos_y newPos = pos_y (goalPosition s)
                      then s1\<lparr>gameWon := True\<rparr> else s1)
            in (Inr \<lparr>success = True, hitWall = False, isCorrectDirection = correct,
                     distanceToGoal = newDistance\<rparr>, s2))"

section \<open>The audio system: playSound\<close>

text \<open>
  Only \<^verbatim>\<open>playSound\<close> is modelled. An \<^verbatim>\<open>AudioBuffer\<close> is its list of samples. The audio
  context is the graph the Web Audio calls build: the nodes created so far, the
  connections between them (a node is named by its index in \<open>nodes\<close>), and the sources
  that were started, which is what reaches the output device. \<open>hasStereoPanner\<close> says
  whether \<^verbatim>\<open>createStereoPanner\<close> exists in the browser; where it does not, the call
  throws inside the \<^verbatim>\<open>try\<close> block. \<open>warnings\<close> collects what \<^verbatim>\<open>console.warn\<close> prints.
\<close>

type_synonym AudioBuffer = "real list"

datatype AudioNode =
  BufferSourceNode "AudioBuffer option"
| GainNode
| StereoPannerNode real

datatype AudioEndpoint = NodeRef nat | Destination

record AudioContext =
  nodes :: "AudioNode list"
  connections :: "(nat \<times> AudioEndpoint) list"
  started :: "nat list"
  hasStereoPanner :: bool

record AudioSystem =
  audioContext :: AudioContext
  sounds :: "string \<rightharpoonup> AudioBuffer"
  isInitialized :: bool
  warnings :: "string list"

definition createNode :: "AudioContext \<Rightarrow> AudioNode \<Rightarrow> nat \<times> AudioContext" where
  "createNode ctx n = (length (nodes ctx), ctx\<lparr>nodes := nodes ctx @ [n]\<rparr>)"

definition connect :: "AudioContext \<Rightarrow> nat \<Rightarrow> AudioEndpoint \<Rightarrow> AudioContext" where
  "connect ctx a b = ctx\<lparr>connections := connections ctx @ [(a, b)]\<rparr>"

definition playSound :: "AudioSystem \<Rightarrow> string \<Rightarrow> real \<Rightarrow> AudioSystem" where
  "playSound a soundName panValue =
     (if \<not> isInitialized a \<or> sounds a soundName = None then a
      else
        let buffer = sounds a soundName;
            (source, c1) = createNode (audioContext a) (BufferSourceNode None);
            (gainNode, c2) = createNode c1 GainNode
        in if \<not> hasStereoPanner c2
           then a\<lparr>audioContext := c2, warnings := warnings a @ [''Failed to play sound:'']\<rparr>
           else
             let (pannerNode, c3) = createNode c2 (StereoPannerNode 0);
                 c4 = c3\<lparr>nodes := (nodes c3)[source := BufferSourceNode buffer]\<rparr>;
                 c5 = c4\<lparr>nodes := (nodes c4)[pannerNode :=
                                   StereoPannerNode (max (-1) (min 1 panValue))]\<rparr>;
                 c6 = connect c5 source (NodeRef gainNode);
                 c7 = connect c6 gainNode (NodeRef pannerNode);
                 c8 = connect c7 pannerNode Destination;
                 c9 = c8\<lparr>started := started c8 @ [source]\<rparr>
             in a\<lparr>audioContext := c9\<rparr>)"

section \<open>Specification vocabulary\<close>

subsection \<open>Paths in a grid\<close>

text \<open>
  The reference notion: a cell is open when it lies inside the grid (row count and the
  length of row 0, as the engine measures them) and holds \<open>CELL_EMPTY\<close>; two cells are
  adjacent when they differ by one step along one axis; \<open>hops m src n c\<close> says that \<open>c\<close>
  is reached from \<open>src\<close> by \<open>n\<close> steps, each into an open cell. The first cell of a path
  is not examined, as in the loop above.
\<close>

definition openCell :: "Maze \<Rightarrow> int \<times> int \<Rightarrow> bool" where
  "openCell m c =
     (case c of (cx, cy) \<Rightarrow>
        0 \<le> cx \<and> cx < int (length (hd m)) \<and> 0 \<le> cy \<and> cy < int (length m) \<and>
        readCell m cx cy = Some CELL_EMPTY)"

definition adjacent :: "int \<times> int \<Rightarrow> int \<times> int \<Rightarrow> bool" where
  "adjacent c c' = (case (c, c') of ((ax, ay), (bx, by)) \<Rightarrow> \<bar>ax - bx\<bar> + \<bar>ay - by\<bar> = 1)"

inductive hops :: "Maze \<Rightarrow> int \<times> int \<Rightarrow> nat \<Rightarrow> int \<times> int \<Rightarrow> bool" for m src where
  hops_0: "hops m src 0 src"
| hops_Suc: "hops m src n c \<Longrightarrow> adjacent c c' \<Longrightarrow> openCell m c' \<Longrightarrow> hops m src (Suc n) c'"

inductive_cases hops_0E: "hops m src 0 c"

inductive_cases hops_SucE: "hops m src (Suc n) c"

text \<open>
  \<open>exactHops\<close>: \<open>n\<close> is the least number of hops. \<open>bfsResult\<close>: \<open>d\<close> is what a shortest-path
  search has to return, the least number of hops when there is a path and the sentinel
  9999 when there is none.
\<close>

definition exactHops :: "Maze \<Rightarrow> int \<times> int \<Rightarrow> nat \<Rightarrow> int \<times> int \<Rightarrow> bool" where
  "exactHops m src n c = (hops m src n c \<and> (\<forall>k < n. \<not> hops m src k c))"

definition bfsResult :: "Maze \<Rightarrow> int \<times> int \<Rightarrow> int \<times> int \<Rightarrow> int \<Rightarrow> bool" where
  "bfsResult m src g d =
     (if (\<exists>n. hops m src n g) then (\<exists>n. d = int n \<and> exactHops m src n g) else d = 9999)"

subsection \<open>Moves\<close>

text \<open>
  \<open>targetBlocked\<close> says that the cell a move aims at is outside the grid or holds
  \<open>CELL_WALL\<close>; \<open>searchable\<close> says that \<open>getDistanceToGoal\<close> does not throw: the grid has a
  row and the player's row index is inside it.
\<close>

definition cellOf :: "Position \<Rightarrow> int \<times> int" where
  "cellOf p = (pos_x p, pos_y p)"

definition inBounds :: "Maze \<Rightarrow> Position \<Rightarrow> bool" where
  "inBounds m p =
     (0 \<le> pos_x p \<and> pos_x p < int (length (hd m)) \<and> 0 \<le> pos_y p \<and> pos_y p < int (length m))"

definition targetBlocked :: "GameState \<Rightarrow> Direction \<Rightarrow> bool" where
  "targetBlocked s d =
     (let t = getNewPosition s d in
      \<not> inBounds (maze s) t \<or> readCell (maze s) (pos_x t) (pos_y t) = Some CELL_WALL)"

definition searchable :: "GameState \<Rightarrow> bool" where
  "searchable s =
     (maze s \<noteq> [] \<and> 0 \<le> pos_y (playerPosition s) \<and>
      pos_y (playerPosition s) < int (length (maze s)))"

subsection \<open>Grids\<close>

text \<open>
  \<open>shaped w h\<close>: a matrix of \<open>h\<close> rows with \<open>w\<close> entries each. \<open>inGrid\<close>: a cell of such a
  matrix. \<open>interior\<close>: strictly inside the outer ring. \<open>lattice\<close>: an interior cell with
  both coordinates odd, the cells the depth-first carve jumps between. \<open>cellIs\<close>: the
  cell holds the given value. \<open>carvedInside\<close>: every cell of the grid is a wall, or is
  EMPTY, interior and has an odd coordinate. \<open>borderIsWall\<close>: every cell of the grid that
  is not interior is a wall. \<open>oddSize\<close> is the size \<open>generateMaze\<close> uses for a requested
  one. \<open>newGame\<close> is the state the constructors and \<open>resetGame\<close> build around a grid.
\<close>

definition shaped :: "int \<Rightarrow> int \<Rightarrow> 'a list list \<Rightarrow> bool" where
  "shaped w h v = (int (length v) = h \<and> (\<forall>i < length v. int (length (v ! i)) = w))"

definition inGrid :: "int \<Rightarrow> int \<Rightarrow> int \<times> int \<Rightarrow> bool" where
  "inGrid w h c = (0 \<le> fst c \<and> fst c < w \<and> 0 \<le> snd c \<and> snd c < h)"

definition interior :: "int \<Rightarrow> int \<Rightarrow> int \<times> int \<Rightarrow> bool" where
  "interior w h c = (0 < fst c \<and> fst c < w - 1 \<and> 0 < snd c \<and> snd c < h - 1)"

definition lattice :: "int \<Rightarrow> int \<Rightarrow> int \<times> int \<Rightarrow> bool" where
  "lattice w h c = (interior w h c \<and> odd (fst c) \<and> odd (snd c))"

definition cellIs :: "Maze \<Rightarrow> int \<times> int \<Rightarrow> int \<Rightarrow> bool" where
  "cellIs m c val = (readCell m (fst c) (snd c) = Some val)"

definition carvedInside :: "int \<Rightarrow> int \<Rightarrow> Maze \<Rightarrow> bool" where
  "carvedInside w h m =
     (\<forall>c. inGrid w h c \<longrightarrow>
        cellIs m c CELL_WALL \<or>
        (cellIs m c CELL_EMPTY \<and> interior w h c \<and> (odd (fst c) \<or> odd (snd c))))"

definition borderIsWall :: "int \<Rightarrow> int \<Rightarrow> Maze \<Rightarrow> bool" where
  "borderIsWall w h m = (\<forall>c. inGrid w h c \<and> \<not> interior w h c \<longrightarrow> cellIs m c CELL_WALL)"

definition oddSize :: "int \<Rightarrow> int" where
  "oddSize n = (if n mod 2 = 0 then n + 1 else n)"

definition newGame :: "int \<Rightarrow> int \<Rightarrow> Maze \<Rightarrow> GameState" where
  "newGame width height m =
     \<lparr>playerPosition = \<lparr>pos_x = 1, pos_y = 1\<rparr>,
      goalPosition = \<lparr>pos_x = width - 2, pos_y = height - 2\<rparr>,
      maze = m, gameWon = False, moveCount = 0\<rparr>"

subsection \<open>Invariants of the two loops\<close>

text \<open>
  For the search: \<open>marked\<close> reads the \<open>visited\<close> matrix; a cell is seen when it is the
  source or marked, and closed when all its open neighbours are seen. \<open>bfsInv\<close> says
  that every queued item carries the exact distance of its cell, that the queue is
  sorted by distance with at most two distances in it, that a seen cell is either
  queued or closed and not the goal, and that every cell nearer than the head of the
  queue is closed.
\<close>

definition marked :: "Visited \<Rightarrow> int \<times> int \<Rightarrow> bool" where
  "marked v c = (visitedAt v (fst c) (snd c) = Some True)"

definition cellsOf :: "QueueItem list \<Rightarrow> (int \<times> int) set" where
  "cellsOf q = (\<lambda>(cx, cy, dst). (cx, cy)) ` set q"

definition seenCell :: "int \<times> int \<Rightarrow> Visited \<Rightarrow> int \<times> int \<Rightarrow> bool" where
  "seenCell src v c = (c = src \<or> marked v c)"

definition closedCell :: "Maze \<Rightarrow> int \<times> int \<Rightarrow> Visited \<Rightarrow> int \<times> int \<Rightarrow> bool" where
  "closedCell m src v c = (\<forall>c'. adjacent c c' \<and> openCell m c' \<longrightarrow> seenCell src v c')"

definition itemDist :: "QueueItem \<Rightarrow> int" where
  "itemDist i = (case i of (cx, cy, dst) \<Rightarrow> dst)"

definition itemCell :: "QueueItem \<Rightarrow> int \<times> int" where
  "itemCell i = (case i of (cx, cy, dst) \<Rightarrow> (cx, cy))"

definition bfsInv ::
  "Maze \<Rightarrow> int \<Rightarrow> int \<Rightarrow> int \<times> int \<Rightarrow> int \<times> int \<Rightarrow> Visited \<Rightarrow> QueueItem list \<Rightarrow> bool" where
  "bfsInv m w h src g v q =
     (shaped w h v
      \<and> (0 \<le> fst src \<and> fst src < w \<and> 0 \<le> snd src \<and> snd src < h \<longrightarrow> marked v src)
      \<and> (\<forall>i \<in> set q. \<exists>n. itemDist i = int n \<and> exactHops m src n (itemCell i)
                            \<and> seenCell src v (itemCell i))
      \<and> sorted (map itemDist q)
      \<and> (\<forall>i \<in> set q. itemDist i \<le> itemDist (hd q) + 1)
      \<and> (\<forall>c. seenCell src v c \<longrightarrow> c \<in> itemCell ` set q \<or> (closedCell m src v c \<and> c \<noteq> g))
      \<and> (\<forall>c n. q \<noteq> [] \<and> hops m src n c \<and> int n < itemDist (hd q) \<longrightarrow> closedCell m src v c))"

text \<open>
  For the carve: the grid keeps its shape and stays \<open>carvedInside\<close>, the stack holds
  EMPTY lattice cells, every EMPTY cell is connected to the start, and an EMPTY lattice
  cell that still has a wall two steps away, inside the ring, is on the stack.
\<close>

definition dfsInv :: "int \<Rightarrow> int \<Rightarrow> int \<times> int \<Rightarrow> Maze \<Rightarrow> (int \<times> int) list \<Rightarrow> bool" where
  "dfsInv w h s0 m stack =
     (shaped w h m \<and> 0 < h
      \<and> carvedInside w h m
      \<and> (\<forall>c \<in> set stack. lattice w h c \<and> cellIs m c CELL_EMPTY)
      \<and> (\<forall>c. openCell m c \<longrightarrow> (\<exists>n. hops m s0 n c))
      \<and> (\<forall>cx cy dx dy.
            lattice w h (cx, cy) \<and> cellIs m (cx, cy) CELL_EMPTY \<and> (dx, dy) \<in> set dirs0
            \<and> interior w h (cx + dx, cy + dy) \<and> cellIs m (cx + dx, cy + dy) CELL_WALL
            \<longrightarrow> (cx, cy) \<in> set stack))"

subsection \<open>Concrete games used as examples\<close>

text \<open>
  \<open>mazeA\<close> is the 7 by 7 grid and \<open>mazeB\<close> the 5 by 5 grid that the depth-first carve
  builds when every random draw is 0; \<open>stateA\<close> are the states of a game on \<open>mazeA\<close>;
  \<open>mazeC\<close> is the 7 by 7 grid of the corridor carve and \<open>mazeD\<close> its grid of 7 columns
  and 9 rows; \<open>stateD\<close> are the states of a game of the corridor version on \<open>mazeD\<close>;
  \<open>play\<close> and \<open>playCorridor\<close> make a list of moves in the two versions;
  \<open>stageA\<close> is an initialized audio system with two cached buffers.
\<close>

definition mazeA :: Maze where
  "mazeA =
     [[1, 1, 1, 1, 1, 1, 1],
      [1, 0, 1, 0, 0, 0, 1],
      [1, 0, 1, 0, 1, 0, 1],
      [1, 0, 0, 0, 1, 0, 1],
      [1, 1, 1, 1, 1, 0, 1],
      [1, 0, 0, 0, 0, 0, 1],
      [1, 1, 1, 1, 1, 1, 1]]"

definition mazeB :: Maze where
  "mazeB =
     [[1, 1, 1, 1, 1],
      [1, 0, 1, 0, 1],
      [1, 0, 1, 0, 1],
      [1, 0, 0, 0, 1],
      [1, 1, 1, 1, 1]]"

definition mazeC :: Maze where
  "mazeC =
     [[1, 1, 1, 1, 1, 1, 1],
      [1, 0, 0, 0, 0, 0, 1],
      [1, 0, 1, 1, 1, 0, 1],
      [1, 0, 0, 0, 0, 0, 1],
      [1, 0, 1, 1, 1, 0, 1],
      [1, 0, 0, 0, 0, 0, 1],
      [1, 1, 1, 1, 1, 1, 1]]"

definition stateA :: "int \<Rightarrow> int \<Rightarrow> bool \<Rightarrow> int \<Rightarrow> GameState" where
  "stateA px py won moves =
     \<lparr>playerPosition = \<lparr>pos_x = px, pos_y = py\<rparr>, goalPosition = \<lparr>pos_x = 5, pos_y = 5\<rparr>,
      maze = mazeA, gameWon = won, moveCount = moves\<rparr>"

definition play :: "GameState \<Rightarrow> Direction list \<Rightarrow> GameState" where
  "play s ds = foldl (\<lambda>s d. snd (movePlayer s d)) s ds"

definition mazeD :: Maze where
  "mazeD =
     [[1, 1, 1, 1, 1, 1, 1],
      [1, 0, 0, 0, 0, 0, 1],
      [1, 0, 1, 1, 1, 0, 1],
      [1, 0, 1, 0, 1, 0, 1],
      [1, 0, 0, 0, 0, 0, 1],
      [1, 0, 1, 0, 1, 0, 1],
      [1, 0, 1, 1, 1, 0, 1],
      [1, 0, 0, 0, 0, 0, 1],
      [1, 1, 1, 1, 1, 1, 1]]"

definition stateD :: "int \<Rightarrow> int \<Rightarrow> int \<Rightarrow> GameState" where
  "stateD px py moves =
     \<lparr>playerPosition = \<lparr>pos_x = px, pos_y = py\<rparr>, goalPosition = \<lparr>pos_x = 5, pos_y = 7\<rparr>,
      maze = mazeD, gameWon = False, moveCount = moves\<rparr>"

definition playCorridor :: "GameState \<Rightarrow> Direction list \<Rightarrow> GameState" where
  "playCorridor s ds = foldl (\<lambda>s d. snd (movePlayerCorridor s d)) s ds"

definition stageA :: AudioSystem where
  "stageA =
     \<lparr>audioContext = \<lparr>nodes = [], connections = [], started = [], hasStereoPanner = True\<rparr>,
      sounds = [''footstep-normal'' \<mapsto> [0, 1 / 2], ''wall-collision'' \<mapsto> [1]],
      isInitialized = True, warnings = []\<rparr>"

section \<open>The search returns shortest distances\<close>

lemma adjacent_iff:
  "adjacent (cx, cy) c' \<longleftrightarrow> (\<exists>(dx, dy) \<in> set directions. c' = (cx + dx, cy + dy))"
  by (cases c') (auto simp: adjacent_def directions_def)

lemma shaped_row:
  assumes "shaped w h v" "0 \<le> ny" "ny < h"
  shows "nat ny < length v" "int (length (v ! nat ny)) = w"
proof -
  from assms show a: "nat ny < length v" unfolding shaped_def by auto
  from assms(1) have "\<forall>i < length v. int (length (v ! i)) = w" unfolding shaped_def by simp
  with a show "int (length (v ! nat ny)) = w" by blast
qed

lemma shaped_markVisited: "shaped w h v \<Longrightarrow> shaped w h (markVisited v nx ny)"
proof (cases "nat ny < length v")
  case True
  assume "shaped w h v"
  with True show ?thesis
    unfolding shaped_def markVisited_def by (auto simp: nth_list_update)
next
  case False
  assume "shaped w h v"
  with False show ?thesis
    unfolding markVisited_def by (simp add: list_update_beyond)
qed

lemma visitedAt_shaped:
  assumes "shaped w h v" "0 \<le> cx" "cx < w" "0 \<le> cy" "cy < h"
  shows "visitedAt v cx cy = Some (v ! nat cy ! nat cx)"
  using shaped_row[OF assms(1,4,5)] assms unfolding visitedAt_def by auto

lemma visitedAt_markVisited:
  assumes "shaped w h v" "0 \<le> nx" "nx < w" "0 \<le> ny" "ny < h"
  shows "visitedAt (markVisited v nx ny) cx cy =
           (if cx = nx \<and> cy = ny then Some True else visitedAt v cx cy)"
proof -
  from shaped_row[OF assms(1,4,5)] assms(2,3)
  have j: "nat ny < length v" and r: "nat nx < length (v ! nat ny)"
    by auto
  show ?thesis
  proof (cases "0 \<le> cy \<and> cy < int (length v)")
    case False
    with assms show ?thesis
      unfolding visitedAt_def markVisited_def shaped_def by auto
  next
    case cyin: True
    then have i: "nat cy < length v" by auto
    show ?thesis
    proof (cases "cy = ny")
      case True
      with j r assms(2,4) show ?thesis
        unfolding visitedAt_def markVisited_def
        by (auto simp: nth_list_update nat_eq_iff)
    next
      case False
      with cyin assms(4) have "nat ny \<noteq> nat cy" by auto
      with False i j show ?thesis
        unfolding visitedAt_def markVisited_def by auto
    qed
  qed
qed

lemma marked_markVisited:
  assumes "shaped w h v" "0 \<le> nx" "nx < w" "0 \<le> ny" "ny < h"
  shows "marked (markVisited v nx ny) c \<longleftrightarrow> c = (nx, ny) \<or> marked v c"
  unfolding marked_def visitedAt_markVisited[OF assms] by (cases c) auto

lemma scanDirections_Cons:
  assumes "w = int (length (hd m))" "h = int (length m)"
  shows "scanDirections m w h (cx, cy, dst) ((dx, dy) # ds) v q =
           (if openCell m (cx + dx, cy + dy)
            then (case visitedAt v (cx + dx) (cy + dy) of
                    None \<Rightarrow> Inl TypeError
                  | Some True \<Rightarrow> scanDirections m w h (cx, cy, dst) ds v q
                  | Some False \<Rightarrow>
                      scanDirections m w h (cx, cy, dst) ds (markVisited v (cx + dx) (cy + dy))
                        (q @ [(cx + dx, cy + dy, dst + 1)]))
            else scanDirections m w h (cx, cy, dst) ds v q)"
  using assms by (auto simp: openCell_def Let_def)

lemma scanDirections_spec:
  assumes "shaped w h v" "w = int (length (hd m))" "h = int (length m)"
    "set ds \<subseteq> set directions"
  shows "\<exists>v' new. scanDirections m w h (cx, cy, dst) ds v q = Inr (v', q @ new)
            \<and> shaped w h v'
            \<and> (\<forall>c. marked v' c \<longleftrightarrow> marked v c \<or> c \<in> cellsOf new)
            \<and> (\<forall>(nx, ny, nd) \<in> set new. nd = dst + 1 \<and> openCell m (nx, ny)
                   \<and> adjacent (cx, cy) (nx, ny) \<and> \<not> marked v (nx, ny))
            \<and> (\<forall>(dx, dy) \<in> set ds. openCell m (cx + dx, cy + dy)
                   \<longrightarrow> marked v' (cx + dx, cy + dy))"
  using assms(1,4)
proof (induction ds arbitrary: v q)
  case Nil
  then show ?case by (auto simp: cellsOf_def intro!: exI[of _ "[]"])
next
  case (Cons d ds)
  obtain dx dy where d: "d = (dx, dy)" by (cases d)
  let ?nx = "cx + dx" and ?ny = "cy + dy"
  from Cons.prems have sub: "set ds \<subseteq> set directions" and din: "(dx, dy) \<in> set directions"
    by (auto simp: d)
  note step = scanDirections_Cons[OF assms(2,3), of cx cy dst dx dy ds]
  have guard: "openCell m (?nx, ?ny) \<Longrightarrow> 0 \<le> ?nx \<and> ?nx < w \<and> 0 \<le> ?ny \<and> ?ny < h"
    using assms(2,3) by (auto simp: openCell_def)
  show ?case
  proof (cases "openCell m (?nx, ?ny)")
    case False
    then have eq: "scanDirections m w h (cx, cy, dst) (d # ds) v q
                         = scanDirections m w h (cx, cy, dst) ds v q"
      unfolding d step by simp
    from Cons.IH[OF Cons.prems(1) sub, of q] obtain v' new where
      r: "scanDirections m w h (cx, cy, dst) ds v q = Inr (v', q @ new)"
         "shaped w h v'"
         "\<forall>c. marked v' c \<longleftrightarrow> marked v c \<or> c \<in> cellsOf new"
         "\<forall>(nx, ny, nd) \<in> set new. nd = dst + 1 \<and> openCell m (nx, ny)
                   \<and> adjacent (cx, cy) (nx, ny) \<and> \<not> marked v (nx, ny)"
         "\<forall>(dx, dy) \<in> set ds. openCell m (cx + dx, cy + dy)
                   \<longrightarrow> marked v' (cx + dx, cy + dy)"
      by blast
    from r(5) False have e: "\<forall>(dx, dy) \<in> set (d # ds). openCell m (cx + dx, cy + dy)
                   \<longrightarrow> marked v' (cx + dx, cy + dy)"
      by (simp add: d)
    from r(1) eq have a: "scanDirections m w h (cx, cy, dst) (d # ds) v q = Inr (v', q @ new)"
      by simp
    show ?thesis
      by (rule exI[of _ v'], rule exI[of _ new], intro conjI) (fact a r(2) r(3) r(4) e)+
  next
    case isOpen: True
    with guard have inb: "0 \<le> ?nx" "?nx < w" "0 \<le> ?ny" "?ny < h" by auto
    from visitedAt_shaped[OF Cons.prems(1) inb]
    have va: "visitedAt v ?nx ?ny = Some (v ! nat ?ny ! nat ?nx)" .
    show ?thesis
    proof (cases "v ! nat ?ny ! nat ?nx")
      case True
      with va have mk: "marked v (?nx, ?ny)" by (simp add: marked_def)
      from True va isOpen
      have eq: "scanDirections m w h (cx, cy, dst) (d # ds) v q
                         = scanDirections m w h (cx, cy, dst) ds v q"
        unfolding d step by simp
      from Cons.IH[OF Cons.prems(1) sub, of q] obtain v' new where
        r: "scanDirections m w h (cx, cy, dst) ds v q = Inr (v', q @ new)"
           "shaped w h v'"
           "\<forall>c. marked v' c \<longleftrightarrow> marked v c \<or> c \<in> cellsOf new"
           "\<forall>(nx, ny, nd) \<in> set new. nd = dst + 1 \<and> openCell m (nx, ny)
                     \<and> adjacent (cx, cy) (nx, ny) \<and> \<not> marked v (nx, ny)"
           "\<forall>(dx, dy) \<in> set ds. openCell m (cx + dx, cy + dy)
                     \<longrightarrow> marked v' (cx + dx, cy + dy)"
        by blast
      from r(3) mk have "marked v' (?nx, ?ny)" by blast
      with r(5) have e: "\<forall>(dx, dy) \<in> set (d # ds). openCell m (cx + dx, cy + dy)
                     \<longrightarrow> marked v' (cx + dx, cy + dy)"
        by (simp add: d)
      from r(1) eq have a: "scanDirections m w h (cx, cy, dst) (d # ds) v q = Inr (v', q @ new)"
        by simp
      show ?thesis
        by (rule exI[of _ v'], rule exI[of _ new], intro conjI) (fact a r(2) r(3) r(4) e)+
    next
      case False
      with va have nmk: "\<not> marked v (?nx, ?ny)" by (simp add: marked_def)
      let ?v1 = "markVisited v ?nx ?ny"
      let ?it = "(?nx, ?ny, dst + 1)"
      from False va isOpen
      have eq: "scanDirections m w h (cx, cy, dst) (d # ds) v q
                  = scanDirections m w h (cx, cy, dst) ds ?v1 (q @ [?it])"
        unfolding d step by simp
      have sh1: "shaped w h ?v1" by (rule shaped_markVisited[OF Cons.prems(1)])
      have mk1: "\<And>c. marked ?v1 c \<longleftrightarrow> c = (?nx, ?ny) \<or> marked v c"
        by (rule marked_markVisited[OF Cons.prems(1) inb])
      from Cons.IH[OF sh1 sub, of "q @ [?it]"] obtain v' new where
        r: "scanDirections m w h (cx, cy, dst) ds ?v1 (q @ [?it]) = Inr (v', (q @ [?it]) @ new)"
           "shaped w h v'"
           "\<forall>c. marked v' c \<longleftrightarrow> marked ?v1 c \<or> c \<in> cellsOf new"
           "\<forall>(nx, ny, nd) \<in> set new. nd = dst + 1 \<and> openCell m (nx, ny)
                     \<and> adjacent (cx, cy) (nx, ny) \<and> \<not> marked ?v1 (nx, ny)"
           "\<forall>(dx, dy) \<in> set ds. openCell m (cx + dx, cy + dy)
                     \<longrightarrow> marked v' (cx + dx, cy + dy)"
        by blast
      have adj: "adjacent (cx, cy) (?nx, ?ny)"
        unfolding adjacent_iff using din by blast
      have a: "scanDirections m w h (cx, cy, dst) (d # ds) v q = Inr (v', q @ (?it # new))"
        using eq r(1) by simp
      have b: "\<forall>c. marked v' c \<longleftrightarrow> marked v c \<or> c \<in> cellsOf (?it # new)"
        using r(3) mk1 by (auto simp: cellsOf_def)
      have c: "\<forall>(nx, ny, nd) \<in> set (?it # new). nd = dst + 1 \<and> openCell m (nx, ny)
                     \<and> adjacent (cx, cy) (nx, ny) \<and> \<not> marked v (nx, ny)"
        using r(4) mk1 isOpen adj nmk by auto
      from r(3) mk1 have "marked v' (?nx, ?ny)" by blast
      with r(5) have e: "\<forall>(dx, dy) \<in> set (d # ds). openCell m (cx + dx, cy + dy)
                     \<longrightarrow> marked v' (cx + dx, cy + dy)"
        by (simp add: d)
      show ?thesis
        by (rule exI[of _ v'], rule exI[of _ "?it # new"], intro conjI) (fact a r(2) b c e)+
    qed
  qed
qed

lemma cellsOf_itemCell: "cellsOf q = itemCell ` set q"
  by (auto simp: cellsOf_def itemCell_def fun_eq_iff intro!: image_cong)

lemma exactHops_unique: "exactHops m src n c \<Longrightarrow> exactHops m src k c \<Longrightarrow> n = k"
  unfolding exactHops_def by (meson nat_neq_iff)

lemma hops_least:
  assumes "hops m src n c"
  shows "\<exists>k \<le> n. exactHops m src k c"
proof -
  define k where "k = (LEAST k. hops m src k c)"
  have "hops m src k c" unfolding k_def using assms by (rule LeastI)
  moreover have "k \<le> n" unfolding k_def using assms by (rule Least_le)
  moreover have "\<forall>j < k. \<not> hops m src j c" unfolding k_def using not_less_Least by blast
  ultimately show ?thesis unfolding exactHops_def by blast
qed

lemma openCell_bounds:
  "openCell m (cx, cy) \<Longrightarrow> 0 \<le> cx \<and> cx < int (length (hd m)) \<and> 0 \<le> cy \<and> cy < int (length m)"
  by (simp add: openCell_def)

lemma bfsInv_step:
  assumes inv: "bfsInv m w h src g v ((cx, cy, dst) # q)"
    and wh: "w = int (length (hd m))" "h = int (length m)"
    and ng: "(cx, cy) \<noteq> g"
  shows "\<exists>v' q'. scanDirections m w h (cx, cy, dst) directions v q = Inr (v', q')
            \<and> bfsInv m w h src g v' q'"
proof -
  from inv have sh: "shaped w h v" by (simp add: bfsInv_def)
  from scanDirections_spec[OF sh wh subset_refl, of cx cy dst q] obtain v' new where
    r: "scanDirections m w h (cx, cy, dst) directions v q = Inr (v', q @ new)"
       "shaped w h v'"
       "\<forall>c. marked v' c \<longleftrightarrow> marked v c \<or> c \<in> cellsOf new"
       "\<forall>(nx, ny, nd) \<in> set new. nd = dst + 1 \<and> openCell m (nx, ny)
                 \<and> adjacent (cx, cy) (nx, ny) \<and> \<not> marked v (nx, ny)"
       "\<forall>(dx, dy) \<in> set directions. openCell m (cx + dx, cy + dy)
                 \<longrightarrow> marked v' (cx + dx, cy + dy)"
    by blast
  have newI: "\<And>i. i \<in> set new \<Longrightarrow> itemDist i = dst + 1 \<and> openCell m (itemCell i)
                 \<and> adjacent (cx, cy) (itemCell i) \<and> \<not> marked v (itemCell i)"
    using r(4) by (auto simp: itemDist_def itemCell_def)
  have mk': "\<And>c. marked v' c \<longleftrightarrow> marked v c \<or> c \<in> itemCell ` set new"
    using r(3) unfolding cellsOf_itemCell by blast
  have seen_mono: "\<And>c. seenCell src v c \<Longrightarrow> seenCell src v' c"
    using mk' by (auto simp: seenCell_def)
  have closed_mono: "\<And>c. closedCell m src v c \<Longrightarrow> closedCell m src v' c"
    using seen_mono unfolding closedCell_def by blast
  from inv obtain n where n: "dst = int n" "exactHops m src n (cx, cy)"
    by (auto simp: bfsInv_def itemDist_def itemCell_def)
  from inv have srcmk: "0 \<le> fst src \<and> fst src < w \<and> 0 \<le> snd src \<and> snd src < h \<longrightarrow> marked v src"
    by (simp add: bfsInv_def)
  from inv have oldq: "\<forall>i \<in> set q. \<exists>n. itemDist i = int n \<and> exactHops m src n (itemCell i)
                            \<and> seenCell src v (itemCell i)"
    by (simp add: bfsInv_def)
  from inv have srt: "sorted (map itemDist ((cx, cy, dst) # q))"
    and bnd: "\<forall>i \<in> set q. itemDist i \<le> dst + 1"
    by (auto simp: bfsInv_def itemDist_def)
  from srt have lowq: "\<forall>i \<in> set q. dst \<le> itemDist i"
    by (auto simp: itemDist_def)
  from inv have "\<forall>c. seenCell src v c \<longrightarrow>
         c \<in> itemCell ` set ((cx, cy, dst) # q) \<or> (closedCell m src v c \<and> c \<noteq> g)"
    unfolding bfsInv_def by blast
  moreover have "itemCell (cx, cy, dst) = (cx, cy)" by (simp add: itemCell_def)
  ultimately have cls: "\<forall>c. seenCell src v c \<longrightarrow>
         c = (cx, cy) \<or> c \<in> itemCell ` set q \<or> (closedCell m src v c \<and> c \<noteq> g)"
    by auto
  from inv have below: "\<forall>c k. hops m src k c \<and> int k < dst \<longrightarrow> closedCell m src v c"
    by (auto simp: bfsInv_def itemDist_def)
  \<comment> \<open>a cell reached in at most \<open>n\<close> hops was seen before the scan\<close>
  have seen_le: "seenCell src v c" if "hops m src k c" "k \<le> n" for k c
  proof (cases k)
    case 0
    with that show ?thesis by (auto simp: seenCell_def elim: hops_0E)
  next
    case (Suc j)
    with that(1) obtain c0 where c0: "hops m src j c0" "adjacent c0 c" "openCell m c"
      by (auto elim: hops_SucE)
    from Suc that(2) n(1) have "int j < dst" by simp
    with below c0(1) have "closedCell m src v c0" by blast
    with c0(2,3) show ?thesis unfolding closedCell_def by blast
  qed
  have A: "\<forall>i \<in> set (q @ new). \<exists>n. itemDist i = int n \<and> exactHops m src n (itemCell i)
                            \<and> seenCell src v' (itemCell i)"
  proof
    fix i assume "i \<in> set (q @ new)"
    then consider "i \<in> set q" | "i \<in> set new" by auto
    then show "\<exists>n. itemDist i = int n \<and> exactHops m src n (itemCell i)
                            \<and> seenCell src v' (itemCell i)"
    proof cases
      case 1
      with oldq seen_mono show ?thesis by blast
    next
      case 2
      note f = newI[OF 2]
      obtain nx ny where c: "itemCell i = (nx, ny)" by (cases "itemCell i")
      from f c wh openCell_bounds[of m nx ny]
      have inb: "0 \<le> nx \<and> nx < w \<and> 0 \<le> ny \<and> ny < h" by simp
      have notseen: "\<not> seenCell src v (itemCell i)"
      proof
        assume "seenCell src v (itemCell i)"
        with f have "itemCell i = src" by (simp add: seenCell_def)
        with srcmk inb c have "marked v (itemCell i)" by auto
        with f show False by simp
      qed
      have "hops m src (Suc n) (itemCell i)"
        using n(2) f by (auto simp: exactHops_def intro: hops_Suc)
      moreover have "\<forall>k < Suc n. \<not> hops m src k (itemCell i)"
        using seen_le notseen by (metis less_Suc_eq_le)
      moreover have "seenCell src v' (itemCell i)"
        using mk' 2 by (auto simp: seenCell_def)
      moreover have "itemDist i = int (Suc n)" using f n(1) by simp
      ultimately show ?thesis unfolding exactHops_def by blast
    qed
  qed
  have alld: "\<forall>i \<in> set (q @ new). dst \<le> itemDist i \<and> itemDist i \<le> dst + 1"
    using lowq bnd newI by auto
  have B1: "sorted (map itemDist (q @ new))"
  proof -
    from srt have "sorted (map itemDist q)" by simp
    moreover have "sorted (map itemDist new)"
      using newI by (induction new) auto
    moreover have "\<forall>a \<in> set q. \<forall>b \<in> set new. itemDist a \<le> itemDist b"
      using bnd newI by auto
    ultimately show ?thesis by (simp add: sorted_append)
  qed
  have B2: "\<forall>i \<in> set (q @ new). itemDist i \<le> itemDist (hd (q @ new)) + 1"
  proof (cases "q @ new")
    case Nil
    then show ?thesis by simp
  next
    case (Cons a list)
    then have "a \<in> set (q @ new)" by (metis list.set_intros(1))
    with alld have "dst \<le> itemDist a" by blast
    with alld Cons show ?thesis by fastforce
  qed
  have headclosed: "closedCell m src v' (cx, cy)"
    unfolding closedCell_def
  proof (intro allI impI)
    fix c' assume a: "adjacent (cx, cy) c' \<and> openCell m c'"
    then obtain dx dy where d: "(dx, dy) \<in> set directions" "c' = (cx + dx, cy + dy)"
      unfolding adjacent_iff by blast
    with a r(5) have "marked v' c'" by blast
    then show "seenCell src v' c'" by (simp add: seenCell_def)
  qed
  have C: "\<forall>c. seenCell src v' c \<longrightarrow>
             c \<in> itemCell ` set (q @ new) \<or> (closedCell m src v' c \<and> c \<noteq> g)"
  proof (intro allI impI)
    fix c assume "seenCell src v' c"
    then consider "seenCell src v c" | "c \<in> itemCell ` set new"
      using mk' by (auto simp: seenCell_def)
    then show "c \<in> itemCell ` set (q @ new) \<or> (closedCell m src v' c \<and> c \<noteq> g)"
    proof cases
      case 1
      with cls consider "c = (cx, cy)" | "c \<in> itemCell ` set q" | "closedCell m src v c \<and> c \<noteq> g"
        by blast
      then show ?thesis
      proof cases
        case 1
        with headclosed ng show ?thesis by simp
      next
        case 2
        then show ?thesis by auto
      next
        case 3
        with closed_mono show ?thesis by blast
      qed
    next
      case 2
      then show ?thesis by auto
    qed
  qed
  have D: "\<forall>c k. q @ new \<noteq> [] \<and> hops m src k c \<and> int k < itemDist (hd (q @ new))
             \<longrightarrow> closedCell m src v' c"
  proof (intro allI impI)
    fix c k assume a: "q @ new \<noteq> [] \<and> hops m src k c \<and> int k < itemDist (hd (q @ new))"
    then have ne: "q @ new \<noteq> []" by blast
    then have hdin: "hd (q @ new) \<in> set (q @ new)" by (rule hd_in_set)
    have hdmin: "itemDist (hd (q @ new)) \<le> itemDist i" if "i \<in> set (q @ new)" for i
    proof -
      from ne obtain a list where al: "q @ new = a # list" by (cases "q @ new") auto
      from B1 have "sorted (map itemDist (a # list))" unfolding al .
      then have "\<forall>i \<in> set list. itemDist a \<le> itemDist i" by simp
      with that show ?thesis unfolding al by auto
    qed
    from alld hdin have hdle: "itemDist (hd (q @ new)) \<le> dst + 1" by blast
    from a hops_least obtain k0 where k0: "k0 \<le> k" "exactHops m src k0 c" by blast
    with a hdle n(1) have k0n: "k0 \<le> n" by simp
    show "closedCell m src v' c"
    proof (cases "k0 < n")
      case True
      with k0(2) n(1) below have "closedCell m src v c"
        unfolding exactHops_def by (metis of_nat_less_iff)
      then show ?thesis by (rule closed_mono)
    next
      case False
      with k0n have eq: "k0 = n" by simp
      with a k0(1) hdle n(1) have hd1: "itemDist (hd (q @ new)) = dst + 1" by simp
      from k0(2) have "hops m src k0 c" by (simp add: exactHops_def)
      then have "seenCell src v c" using k0n by (rule seen_le)
      then have "seenCell src v' c" by (rule seen_mono)
      with C consider "c \<in> itemCell ` set (q @ new)" | "closedCell m src v' c" by blast
      then show ?thesis
      proof cases
        case 1
        then obtain i where i: "i \<in> set (q @ new)" "c = itemCell i" by blast
        with A obtain j where j: "itemDist i = int j" "exactHops m src j c" by blast
        from exactHops_unique[OF j(2) k0(2)] eq have "j = n" by simp
        with j(1) n(1) have "itemDist i = dst" by simp
        moreover from i(1) have "itemDist (hd (q @ new)) \<le> itemDist i" by (rule hdmin)
        ultimately show ?thesis using hd1 by simp
      next
        case 2
        then show ?thesis .
      qed
    qed
  qed
  from r(3) srcmk have E: "0 \<le> fst src \<and> fst src < w \<and> 0 \<le> snd src \<and> snd src < h \<longrightarrow> marked v' src"
    by blast
  have "bfsInv m w h src g v' (q @ new)"
    unfolding bfsInv_def by (intro conjI) (fact r(2) E A B1 B2 C D)+
  with r(1) show ?thesis by blast
qed

lemma bfsLoop_correct:
  assumes "bfsInv m w h src (pos_x g, pos_y g) v q"
    and "w = int (length (hd m))" "h = int (length m)"
  shows "\<exists>d. bfsLoop m w h g v q = Inr d \<and> bfsResult m src (pos_x g, pos_y g) d"
  using assms
proof (induction m w h g v q rule: bfsLoop.induct)
  case (1 m w h g v)
  let ?g = "(pos_x g, pos_y g)"
  from 1(1) have cl: "\<forall>c. seenCell src v c \<longrightarrow> closedCell m src v c \<and> c \<noteq> ?g"
    unfolding bfsInv_def by simp
  have "seenCell src v c" if "hops m src n c" for n c
    using that
  proof (induction rule: hops.induct)
    case hops_0
    then show ?case by (simp add: seenCell_def)
  next
    case (hops_Suc n c c')
    with cl have "closedCell m src v c" by blast
    with hops_Suc(2,3) show ?case unfolding closedCell_def by blast
  qed
  with cl have "\<not> (\<exists>n. hops m src n ?g)" by blast
  then show ?case by (simp add: bfsResult_def)
next
  case (2 m w h g v cx cy dst q)
  let ?g = "(pos_x g, pos_y g)"
  show ?case
  proof (cases "cx = pos_x g \<and> cy = pos_y g")
    case True
    from 2(2) obtain n where "dst = int n" "exactHops m src n (cx, cy)"
      by (auto simp: bfsInv_def itemDist_def itemCell_def)
    with True have "dst = int n \<and> exactHops m src n ?g" by simp
    moreover from this have "\<exists>n. hops m src n ?g" unfolding exactHops_def by blast
    ultimately have "bfsResult m src ?g dst" unfolding bfsResult_def by auto
    with True show ?thesis by simp
  next
    case False
    then have ng: "(cx, cy) \<noteq> ?g" by auto
    from bfsInv_step[OF 2(2) 2(3) 2(4) ng] obtain v' q' where
      st: "scanDirections m w h (cx, cy, dst) directions v q = Inr (v', q')"
          "bfsInv m w h src ?g v' q'"
      by blast
    have "bfsLoop m w h g v ((cx, cy, dst) # q) = bfsLoop m w h g v' q'"
      using False st(1) by auto
    with "2.IH"[OF False st(1) refl st(2) 2(3) 2(4)]
    show ?thesis by simp
  qed
qed

lemma marked_replicate:
  "\<not> marked (replicate a (replicate b False)) c"
  unfolding marked_def visitedAt_def by auto

lemma shaped_replicate:
  "0 \<le> w \<Longrightarrow> 0 \<le> h \<Longrightarrow> shaped w h (replicate (nat h) (replicate (nat w) False))"
  unfolding shaped_def by auto

lemma getDistanceToGoal_correct:
  assumes "maze s \<noteq> []"
    and "0 \<le> pos_y (playerPosition s)" "pos_y (playerPosition s) < int (length (maze s))"
  shows "\<exists>d. getDistanceToGoal s = Inr d \<and>
           bfsResult (maze s) (pos_x (playerPosition s), pos_y (playerPosition s))
             (pos_x (goalPosition s), pos_y (goalPosition s)) d"
proof -
  define m where "m = maze s"
  define w where "w = int (length (hd m))"
  define h where "h = int (length m)"
  define sx where "sx = pos_x (playerPosition s)"
  define sy where "sy = pos_y (playerPosition s)"
  define v0 where "v0 = replicate (nat h) (replicate (nat w) False)"
  define v1 where "v1 = (if 0 \<le> sx \<and> sx < w then markVisited v0 sx sy else v0)"
  let ?g = "(pos_x (goalPosition s), pos_y (goalPosition s))"
  have sh0: "shaped w h v0" unfolding v0_def by (rule shaped_replicate) (simp_all add: w_def h_def)
  from assms have syb: "0 \<le> sy" "sy < h" by (simp_all add: sy_def h_def m_def)
  have mk1: "marked v1 c \<longleftrightarrow> (0 \<le> sx \<and> sx < w) \<and> c = (sx, sy)" for c
  proof (cases "0 \<le> sx \<and> sx < w")
    case True
    then have b: "0 \<le> sx" "sx < w" by auto
    from True marked_markVisited[OF sh0 b syb, of c] marked_replicate[of "nat h" "nat w" c]
    show ?thesis by (simp add: v1_def v0_def)
  next
    case False
    then have "v1 = v0" by (auto simp: v1_def)
    with False marked_replicate[of "nat h" "nat w" c] show ?thesis by (auto simp: v0_def)
  qed
  have sh1: "shaped w h v1" unfolding v1_def using sh0 by (simp add: shaped_markVisited)
  have ex0: "exactHops m src 0 src" for src unfolding exactHops_def by (simp add: hops_0)
  have inv: "bfsInv m w h (sx, sy) ?g v1 [(sx, sy, 0)]"
    unfolding bfsInv_def
  proof (intro conjI)
    show "shaped w h v1" by (rule sh1)
    show "0 \<le> fst (sx, sy) \<and> fst (sx, sy) < w \<and> 0 \<le> snd (sx, sy) \<and> snd (sx, sy) < h
            \<longrightarrow> marked v1 (sx, sy)"
      by (simp add: mk1)
    show "\<forall>i \<in> set [(sx, sy, 0)]. \<exists>n. itemDist i = int n \<and> exactHops m (sx, sy) n (itemCell i)
            \<and> seenCell (sx, sy) v1 (itemCell i)"
      using ex0[of "(sx, sy)"] by (auto simp: itemDist_def itemCell_def seenCell_def intro!: exI[of _ 0])
    show "sorted (map itemDist [(sx, sy, 0)])" by simp
    show "\<forall>i \<in> set [(sx, sy, 0)]. itemDist i \<le> itemDist (hd [(sx, sy, 0)]) + 1" by simp
    show "\<forall>c. seenCell (sx, sy) v1 c \<longrightarrow>
            c \<in> itemCell ` set [(sx, sy, 0)] \<or> (closedCell m (sx, sy) v1 c \<and> c \<noteq> ?g)"
      by (auto simp: seenCell_def mk1 itemCell_def)
    show "\<forall>c n. [(sx, sy, 0)] \<noteq> [] \<and> hops m (sx, sy) n c \<and> int n < itemDist (hd [(sx, sy, 0)])
            \<longrightarrow> closedCell m (sx, sy) v1 c"
      by (simp add: itemDist_def)
  qed
  from bfsLoop_correct[OF inv w_def h_def] obtain d where
    d: "bfsLoop m w h (goalPosition s) v1 [(sx, sy, 0)] = Inr d" "bfsResult m (sx, sy) ?g d"
    by blast
  have "getDistanceToGoal s = bfsLoop m w h (goalPosition s) v1 [(sx, sy, 0)]"
    using assms syb
    unfolding getDistanceToGoal_def Let_def m_def[symmetric] w_def[symmetric] h_def[symmetric]
      sx_def[symmetric] sy_def[symmetric] v0_def[symmetric] v1_def
    by (simp add: m_def)
  with d show ?thesis unfolding m_def sx_def sy_def by simp
qed

section \<open>Moves: what a call changes and what it returns\<close>

lemma isValidPosition_Inr:
  "isValidPosition s p = Inr b \<Longrightarrow> b = inBounds (maze s) p"
  by (auto simp: isValidPosition_def inBounds_def split: if_splits)

lemma isValidPosition_searchable:
  "maze s \<noteq> [] \<Longrightarrow> isValidPosition s p = Inr (inBounds (maze s) p)"
  by (auto simp: isValidPosition_def inBounds_def)

lemma getDistanceToGoal_empty: "maze s = [] \<Longrightarrow> getDistanceToGoal s = Inl TypeError"
  by (simp add: getDistanceToGoal_def)

lemma movePlayer_blocked:
  assumes "targetBlocked s d"
  shows "movePlayer s d =
           (case getDistanceToGoal s of
              Inl e \<Rightarrow> Inl e
            | Inr cur \<Rightarrow> Inr \<lparr>success = False, hitWall = True, isCorrectDirection = False,
                              distanceToGoal = cur\<rparr>, s)"
proof (cases "isValidPosition s (getNewPosition s d)")
  case (Inl e)
  then have "maze s = []" "e = TypeError"
    by (auto simp: isValidPosition_def split: if_splits)
  with Inl show ?thesis
    by (simp add: movePlayer_def getDistanceToGoal_empty)
next
  case (Inr b)
  from isValidPosition_Inr[OF Inr] assms
  have "\<not> b \<or> readCell (maze s) (pos_x (getNewPosition s d)) (pos_y (getNewPosition s d))
            = Some CELL_WALL"
    by (auto simp: targetBlocked_def Let_def)
  with Inr show ?thesis
    by (auto simp: movePlayer_def Let_def split: sum.splits)
qed

lemma movePlayer_advance:
  assumes "searchable s" "\<not> targetBlocked s d" "getDistanceToGoal s = Inr cur"
  shows "movePlayer s d =
           (let t = getNewPosition s d;
                s1 = s\<lparr>playerPosition := t, moveCount := moveCount s + 1\<rparr>
            in (Inr \<lparr>success = True, hitWall = False,
                     isCorrectDirection = (getDistance t (goalPosition s) < cur),
                     distanceToGoal = getDistance t (goalPosition s)\<rparr>,
                if pos_x t = pos_x (goalPosition s) \<and> pos_y t = pos_y (goalPosition s)
                then s1\<lparr>gameWon := True\<rparr> else s1))"
proof -
  from assms(1) have "maze s \<noteq> []" by (simp add: searchable_def)
  note v = isValidPosition_searchable[OF this, of "getNewPosition s d"]
  from assms(2) have "inBounds (maze s) (getNewPosition s d)"
    and "readCell (maze s) (pos_x (getNewPosition s d)) (pos_y (getNewPosition s d))
            \<noteq> Some CELL_WALL"
    by (auto simp: targetBlocked_def Let_def)
  with v assms(3) show ?thesis
    by (simp add: movePlayer_def Let_def)
qed

lemma movePlayer_frame:
  "maze (snd (movePlayer s d)) = maze s \<and> goalPosition (snd (movePlayer s d)) = goalPosition s
     \<and> (gameWon s \<longrightarrow> gameWon (snd (movePlayer s d)))"
  by (auto simp: movePlayer_def Let_def split: sum.splits)

lemma getDistanceToGoal_searchable:
  assumes "searchable s"
  shows "\<exists>d. getDistanceToGoal s = Inr d \<and>
           bfsResult (maze s) (cellOf (playerPosition s)) (cellOf (goalPosition s)) d"
  using assms getDistanceToGoal_correct[of s] unfolding searchable_def cellOf_def by blast

lemma stateA_generated: "constructorGameLogic (\<lambda>k. 0) 7 7 = Inr (stateA 1 1 False 0)"
  by code_simp

lemma stateA_won_reached:
  "play (stateA 1 1 False 0)
     [south, south, east, east, north, north, east, east, south, south, south, south]
   = stateA 5 5 True 12"
  by code_simp

lemma movePlayerCorridor_blocked:
  assumes "targetBlocked s d"
  shows "movePlayerCorridor s d =
           (case isValidPosition s (getNewPosition s d) of
              Inl e \<Rightarrow> Inl e
            | Inr b \<Rightarrow> Inr \<lparr>success = False, hitWall = True, isCorrectDirection = False,
                            distanceToGoal = getDistance (playerPosition s) (goalPosition s)\<rparr>,
            s)"
proof (cases "isValidPosition s (getNewPosition s d)")
  case (Inl e)
  then show ?thesis by (simp add: movePlayerCorridor_def)
next
  case (Inr b)
  from isValidPosition_Inr[OF Inr] assms
  have "\<not> b \<or> readCell (maze s) (pos_x (getNewPosition s d)) (pos_y (getNewPosition s d))
            = Some CELL_WALL"
    by (auto simp: targetBlocked_def Let_def)
  with Inr show ?thesis
    by (auto simp: movePlayerCorridor_def getDistanceToGoalCorridor_def Let_def)
qed

lemma stateD_generated: "constructorCorridor 7 9 = Inr (stateD 1 1 0)"
  by code_simp

lemma stateD_reached:
  "playCorridor (stateD 1 1 0) [south, south, south, east, east, south] = stateD 3 5 6"
  by code_simp

lemma stateD_shortest: "exactHops mazeD (3, 5) 6 (5, 7)"
proof -
  have h: "searchable (stateD 3 5 6)" by code_simp
  have g: "getDistanceToGoal (stateD 3 5 6) = Inr 6" by code_simp
  have c: "maze (stateD 3 5 6) = mazeD" "cellOf (playerPosition (stateD 3 5 6)) = (3, 5)"
    "cellOf (goalPosition (stateD 3 5 6)) = (5, 7)"
    by (simp_all add: stateD_def cellOf_def)
  from getDistanceToGoal_searchable[OF h] g
  have "bfsResult mazeD (3, 5) (5, 7) 6" unfolding c by simp
  then have "\<exists>n. (6::int) = int n \<and> exactHops mazeD (3, 5) n (5, 7)"
    unfolding bfsResult_def by (cases "\<exists>n. hops mazeD (3, 5) n (5, 7)") simp_all
  then obtain n where "(6::int) = int n" "exactHops mazeD (3, 5) n (5, 7)" by blast
  moreover from this(1) have "n = 6" by linarith
  ultimately show ?thesis by simp
qed

section \<open>What the depth-first carve guarantees\<close>

lemma readCell_shaped:
  assumes "shaped w h m"
  shows "readCell m cx cy =
           (if 0 \<le> cx \<and> cx < w \<and> 0 \<le> cy \<and> cy < h then Some (m ! nat cy ! nat cx) else None)"
proof (cases "0 \<le> cy \<and> cy < h")
  case True
  with shaped_row[OF assms, of cy] show ?thesis by (auto simp: readCell_def)
next
  case False
  with assms show ?thesis by (auto simp: readCell_def shaped_def)
qed

lemma storeCell_shaped:
  assumes "shaped w h m" "0 \<le> cx" "cx < w" "0 \<le> cy" "cy < h"
  shows "\<exists>m'. storeCell m cx cy val = Inr m' \<and> shaped w h m'
            \<and> (\<forall>a b. readCell m' a b = (if a = cx \<and> b = cy then Some val else readCell m a b))"
proof -
  from shaped_row[OF assms(1,4,5)] assms(2,3)
  have j: "nat cy < length m" and r: "nat cx < length (m ! nat cy)" by auto
  define m' where "m' = m[nat cy := (m ! nat cy)[nat cx := val]]"
  from j r assms(2,4) have st: "storeCell m cx cy val = Inr m'"
    by (auto simp: storeCell_def Let_def m'_def)
  have sh: "shaped w h m'"
    using assms(1) j unfolding shaped_def m'_def by (auto simp: nth_list_update)
  have rd: "readCell m' a b = (if a = cx \<and> b = cy then Some val else readCell m a b)" for a b
  proof (cases "0 \<le> a \<and> a < w \<and> 0 \<le> b \<and> b < h")
    case False
    with assms(2-5) show ?thesis
      unfolding readCell_shaped[OF sh] readCell_shaped[OF assms(1)] by auto
  next
    case True
    then have ib: "nat b < length m" using shaped_row[OF assms(1), of b] by auto
    have ia: "nat a < length (m ! nat b)" using shaped_row[OF assms(1), of b] True by auto
    from True have l: "readCell m' a b = Some (m' ! nat b ! nat a)"
      and r0: "readCell m a b = Some (m ! nat b ! nat a)"
      unfolding readCell_shaped[OF sh] readCell_shaped[OF assms(1)] by simp_all
    show ?thesis
    proof (cases "b = cy")
      case True
      have "m' ! nat cy = (m ! nat cy)[nat cx := val]"
        unfolding m'_def using j by simp
      then have "m' ! nat b ! nat a = (if nat cx = nat a then val else m ! nat b ! nat a)"
        using True r ia by (simp add: nth_list_update)
      moreover have "nat cx = nat a \<longleftrightarrow> a = cx"
        using assms(2) \<open>0 \<le> a \<and> _\<close> by auto
      ultimately show ?thesis unfolding l r0 using True by simp
    next
      case False
      with True assms(4) have "nat cy \<noteq> nat b" by auto
      then have "m' ! nat b = m ! nat b" unfolding m'_def by simp
      with False show ?thesis unfolding l r0 by simp
    qed
  qed
  from st sh rd show ?thesis by blast
qed

lemma set_swap_eq:
  "i < length xs \<Longrightarrow> j < length xs \<Longrightarrow> set (swap xs i j) = set xs \<and> length (swap xs i j) = length xs"
  unfolding swap_def by (simp add: set_swap)

lemma shuffleFrom_set:
  "i < length ds \<Longrightarrow> set (shuffleFrom rnd k i ds) = set ds \<and> length (shuffleFrom rnd k i ds) = length ds"
proof (induction i arbitrary: k ds)
  case 0
  then show ?case by simp
next
  case (Suc i)
  have "rnd k mod (Suc i + 1) < Suc i + 1" by (rule mod_less_divisor) simp
  with Suc.prems have j: "rnd k mod (Suc i + 1) < length ds" by linarith
  from set_swap_eq[OF Suc.prems j]
  have s: "set (swap ds (Suc i) (rnd k mod (Suc i + 1))) = set ds"
    "length (swap ds (Suc i) (rnd k mod (Suc i + 1))) = length ds" by simp_all
  with Suc.prems have "i < length (swap ds (Suc i) (rnd k mod (Suc i + 1)))" by simp
  from Suc.IH[OF this, of "Suc k"] s show ?case by simp
qed

lemma firstCarvable_None:
  "firstCarvable m w h cx cy ds = None \<Longrightarrow> (dx, dy) \<in> set ds \<Longrightarrow>
     \<not> (cx + dx > 0 \<and> cx + dx < w - 1 \<and> cy + dy > 0 \<and> cy + dy < h - 1
         \<and> readCell m (cx + dx) (cy + dy) = Some CELL_WALL)"
  by (induction ds) (auto simp: Let_def split: if_splits)

lemma dirs0_mid:
  assumes "(dx, dy) \<in> set dirs0" "interior w h (cx, cy)" "interior w h (cx + dx, cy + dy)"
  shows "interior w h (cx + dx div 2, cy + dy div 2)"
    and "adjacent (cx, cy) (cx + dx div 2, cy + dy div 2)"
    and "adjacent (cx + dx div 2, cy + dy div 2) (cx + dx, cy + dy)"
    and "(cx + dx div 2, cy + dy div 2) \<noteq> (cx + dx, cy + dy)"
    and "odd cx \<Longrightarrow> odd cy \<Longrightarrow> odd (cx + dx) \<and> odd (cy + dy)
           \<and> (odd (cx + dx div 2) \<or> odd (cy + dy div 2))
           \<and> \<not> (odd (cx + dx div 2) \<and> odd (cy + dy div 2))"
proof -
  from assms(1) consider "dx = 0 \<and> dy = -2" | "dx = 0 \<and> dy = 2" | "dx = 2 \<and> dy = 0"
    | "dx = -2 \<and> dy = 0"
    by (auto simp: dirs0_def)
  note cases = this
  from cases assms(2,3) show "interior w h (cx + dx div 2, cy + dy div 2)"
    by cases (simp_all add: interior_def)
  from cases show "adjacent (cx, cy) (cx + dx div 2, cy + dy div 2)"
    by cases (simp_all add: adjacent_def)
  from cases show "adjacent (cx + dx div 2, cy + dy div 2) (cx + dx, cy + dy)"
    by cases (simp_all add: adjacent_def)
  from cases show "(cx + dx div 2, cy + dy div 2) \<noteq> (cx + dx, cy + dy)"
    by cases simp_all
  assume "odd cx" "odd cy"
  with cases show "odd (cx + dx) \<and> odd (cy + dy)
           \<and> (odd (cx + dx div 2) \<or> odd (cy + dy div 2))
           \<and> \<not> (odd (cx + dx div 2) \<and> odd (cy + dy div 2))"
    by cases simp_all
qed

lemma hops_mono:
  assumes "hops m src n c" "\<And>c. openCell m c \<Longrightarrow> openCell m' c"
  shows "hops m' src n c"
  using assms(1)
proof (induction rule: hops.induct)
  case hops_0
  then show ?case by (rule hops.hops_0)
next
  case (hops_Suc n c c')
  from hops_Suc(4) hops_Suc(2) assms(2)[OF hops_Suc(3)] show ?case by (rule hops.hops_Suc)
qed

lemma openCell_shaped:
  assumes "shaped w h m" "0 < h"
  shows "openCell m c \<longleftrightarrow> inGrid w h c \<and> cellIs m c CELL_EMPTY"
proof -
  from assms have "m \<noteq> []" by (auto simp: shaped_def)
  then have "hd m = m ! 0" by (simp add: hd_conv_nth)
  with shaped_row[OF assms(1), of 0] assms(2) have "int (length (hd m)) = w" by simp
  moreover from assms(1) have "int (length m) = h" by (simp add: shaped_def)
  ultimately show ?thesis
    by (cases c) (auto simp: openCell_def inGrid_def cellIs_def)
qed

lemma interior_inGrid: "interior w h c \<Longrightarrow> inGrid w h c"
  by (auto simp: interior_def inGrid_def)

lemma dfsInv_pop:
  assumes inv: "dfsInv w h s0 m ((cx, cy) # stack)"
    and fc: "firstCarvable m w h cx cy ds = None" and ds: "set ds = set dirs0"
  shows "dfsInv w h s0 m stack"
proof -
  have fr: "(ax, ay) \<in> set stack"
    if a: "lattice w h (ax, ay) \<and> cellIs m (ax, ay) CELL_EMPTY \<and> (dx, dy) \<in> set dirs0
            \<and> interior w h (ax + dx, ay + dy) \<and> cellIs m (ax + dx, ay + dy) CELL_WALL"
    for ax ay dx dy
  proof -
    from inv a have "(ax, ay) \<in> set ((cx, cy) # stack)"
      unfolding dfsInv_def by blast
    moreover have "(ax, ay) \<noteq> (cx, cy)"
    proof
      assume "(ax, ay) = (cx, cy)"
      with a ds firstCarvable_None[OF fc, of dx dy] show False
        by (auto simp: interior_def cellIs_def)
    qed
    ultimately show ?thesis by auto
  qed
  from inv have "shaped w h m" "0 < h" "carvedInside w h m"
    "\<forall>c \<in> set stack. lattice w h c \<and> cellIs m c CELL_EMPTY"
    "\<forall>c. openCell m c \<longrightarrow> (\<exists>n. hops m s0 n c)"
    unfolding dfsInv_def by simp_all
  with fr show ?thesis unfolding dfsInv_def by blast
qed

lemma dfsInv_carve:
  assumes inv: "dfsInv w h s0 m ((cx, cy) # stack)"
    and fc: "firstCarvable m w h cx cy ds = Some (dx, dy)" and ds: "set ds = set dirs0"
  shows "\<exists>m1 m2. storeCell m (cx + dx) (cy + dy) CELL_EMPTY = Inr m1
            \<and> storeCell m1 (cx + dx div 2) (cy + dy div 2) CELL_EMPTY = Inr m2
            \<and> dfsInv w h s0 m2 ((cx + dx, cy + dy) # (cx, cy) # stack)
            \<and> (\<forall>c. cellIs m c CELL_EMPTY \<longrightarrow> cellIs m2 c CELL_EMPTY)"
proof -
  let ?n = "(cx + dx, cy + dy)" and ?mid = "(cx + dx div 2, cy + dy div 2)"
  from inv have sh: "shaped w h m" and hpos: "0 < h" and ci: "carvedInside w h m"
    and st: "\<forall>c \<in> set stack. lattice w h c \<and> cellIs m c CELL_EMPTY"
    and top: "lattice w h (cx, cy)" "cellIs m (cx, cy) CELL_EMPTY"
    and conn: "\<forall>c. openCell m c \<longrightarrow> (\<exists>n. hops m s0 n c)"
    unfolding dfsInv_def by simp_all
  from firstCarvable_Some[OF fc] ds
  have din: "(dx, dy) \<in> set dirs0" and nin: "interior w h ?n"
    and nwall: "cellIs m ?n CELL_WALL"
    by (auto simp: interior_def cellIs_def)
  from top have tin: "interior w h (cx, cy)" and todd: "odd cx" "odd cy"
    by (simp_all add: lattice_def)
  note mid = dirs0_mid[OF din tin nin]
  from interior_inGrid[OF nin] have nb: "0 \<le> cx + dx" "cx + dx < w" "0 \<le> cy + dy" "cy + dy < h"
    by (simp_all add: inGrid_def)
  from interior_inGrid[OF mid(1)]
  have mb: "0 \<le> cx + dx div 2" "cx + dx div 2 < w" "0 \<le> cy + dy div 2" "cy + dy div 2 < h"
    by (simp_all add: inGrid_def)
  from storeCell_shaped[OF sh nb, of CELL_EMPTY] obtain m1 where
    m1: "storeCell m (cx + dx) (cy + dy) CELL_EMPTY = Inr m1" "shaped w h m1"
      "\<And>a b. readCell m1 a b = (if a = cx + dx \<and> b = cy + dy then Some CELL_EMPTY
                                   else readCell m a b)"
    by blast
  from storeCell_shaped[OF m1(2) mb, of CELL_EMPTY] obtain m2 where
    m2: "storeCell m1 (cx + dx div 2) (cy + dy div 2) CELL_EMPTY = Inr m2" "shaped w h m2"
      "\<And>a b. readCell m2 a b = (if a = cx + dx div 2 \<and> b = cy + dy div 2 then Some CELL_EMPTY
                                   else readCell m1 a b)"
    by blast
  have rd: "cellIs m2 c val \<longleftrightarrow> (if c = ?mid \<or> c = ?n then val = CELL_EMPTY else cellIs m c val)"
    for c val
    unfolding cellIs_def m2(3) m1(3) by (cases c) auto
  have keep: "cellIs m c CELL_EMPTY \<Longrightarrow> cellIs m2 c CELL_EMPTY" for c
    unfolding rd by simp
  have wallback: "cellIs m2 c CELL_WALL \<Longrightarrow> cellIs m c CELL_WALL" for c
    unfolding rd by (auto simp: CELL_WALL_def CELL_EMPTY_def split: if_splits)
  have om: "openCell m c \<Longrightarrow> openCell m2 c" for c
    unfolding openCell_shaped[OF sh hpos] openCell_shaped[OF m2(2) hpos] using keep by blast
  note todd' = mid(5)[OF todd]
  have nlat: "lattice w h ?n" using nin todd' by (simp add: lattice_def)
  have ci2: "carvedInside w h m2"
    unfolding carvedInside_def
  proof (intro allI impI)
    fix c assume g: "inGrid w h c"
    show "cellIs m2 c CELL_WALL \<or>
            (cellIs m2 c CELL_EMPTY \<and> interior w h c \<and> (odd (fst c) \<or> odd (snd c)))"
    proof (cases "c = ?mid \<or> c = ?n")
      case True
      then show ?thesis using mid(1) nin todd' unfolding rd by auto
    next
      case False
      from ci g have "cellIs m c CELL_WALL \<or>
            (cellIs m c CELL_EMPTY \<and> interior w h c \<and> (odd (fst c) \<or> odd (snd c)))"
        unfolding carvedInside_def by blast
      with False show ?thesis unfolding rd by simp
    qed
  qed
  have st2: "\<forall>c \<in> set (?n # (cx, cy) # stack). lattice w h c \<and> cellIs m2 c CELL_EMPTY"
    using st top nlat keep rd[of ?n CELL_EMPTY] by auto
  have conn2: "\<forall>c. openCell m2 c \<longrightarrow> (\<exists>n. hops m2 s0 n c)"
  proof (intro allI impI)
    fix c assume o: "openCell m2 c"
    from top(2) interior_inGrid[OF tin] have "openCell m (cx, cy)"
      unfolding openCell_shaped[OF sh hpos] by simp
    with conn obtain k where "hops m s0 k (cx, cy)" by blast
    then have k: "hops m2 s0 k (cx, cy)" using om by (rule hops_mono)
    have omid: "openCell m2 ?mid"
      unfolding openCell_shaped[OF m2(2) hpos] rd using interior_inGrid[OF mid(1)] by simp
    have on: "openCell m2 ?n"
      unfolding openCell_shaped[OF m2(2) hpos] rd using interior_inGrid[OF nin] by simp
    from k mid(2) omid have k1: "hops m2 s0 (Suc k) ?mid" by (rule hops_Suc)
    from k1 mid(3) on have k2: "hops m2 s0 (Suc (Suc k)) ?n" by (rule hops_Suc)
    show "\<exists>n. hops m2 s0 n c"
    proof (cases "c = ?mid \<or> c = ?n")
      case True
      with k1 k2 show ?thesis by blast
    next
      case False
      with o have "openCell m c"
        unfolding openCell_shaped[OF sh hpos] openCell_shaped[OF m2(2) hpos] rd by simp
      with conn obtain j where "hops m s0 j c" by blast
      then have "hops m2 s0 j c" using om by (rule hops_mono)
      then show ?thesis by blast
    qed
  qed
  have fr2: "(ax, ay) \<in> set (?n # (cx, cy) # stack)"
    if a: "lattice w h (ax, ay) \<and> cellIs m2 (ax, ay) CELL_EMPTY \<and> (ex, ey) \<in> set dirs0
            \<and> interior w h (ax + ex, ay + ey) \<and> cellIs m2 (ax + ex, ay + ey) CELL_WALL"
    for ax ay ex ey
  proof (cases "(ax, ay) = ?n")
    case True
    then show ?thesis by simp
  next
    case False
    from a todd' have "(ax, ay) \<noteq> ?mid" by (auto simp: lattice_def)
    with False a have "cellIs m (ax, ay) CELL_EMPTY" unfolding rd by simp
    moreover from a wallback have "cellIs m (ax + ex, ay + ey) CELL_WALL" by blast
    ultimately have "(ax, ay) \<in> set ((cx, cy) # stack)"
      using inv a unfolding dfsInv_def by blast
    then show ?thesis by simp
  qed
  have "dfsInv w h s0 m2 (?n # (cx, cy) # stack)"
    unfolding dfsInv_def using m2(2) hpos ci2 st2 conn2 fr2 by blast
  with m1(1) m2(1) keep show ?thesis by blast
qed

lemma dfsLoop_correct:
  assumes "dfsInv w h s0 m stack" "set dirs = set dirs0" "length dirs = 4"
  shows "\<exists>m'. dfsLoop rnd k w h dirs m stack = Inr m' \<and> dfsInv w h s0 m' []
            \<and> (\<forall>c. cellIs m c CELL_EMPTY \<longrightarrow> cellIs m' c CELL_EMPTY)"
  using assms
proof (induction rnd k w h dirs m stack rule: dfsLoop.induct)
  case (1 rnd k w h dirs m)
  then show ?case by simp
next
  case (2 rnd k w h dirs m cx cy stack)
  define dirs' where "dirs' = shuffleFrom rnd k (length dirs - 1) dirs"
  define k' where "k' = k + (length dirs - 1)"
  from 2(4,5) shuffleFrom_set[of "length dirs - 1" dirs rnd k]
  have d': "set dirs' = set dirs0" "length dirs' = 4" by (simp_all add: dirs'_def)
  show ?case
  proof (cases "firstCarvable m w h cx cy dirs'")
    case None
    from dfsInv_pop[OF 2(3) None d'(1)] have inv': "dfsInv w h s0 m stack" .
    from "2.IH"(1)[OF dirs'_def k'_def None inv' d']
    obtain m' where "dfsLoop rnd k' w h dirs' m stack = Inr m'" "dfsInv w h s0 m' []"
      "\<forall>c. cellIs m c CELL_EMPTY \<longrightarrow> cellIs m' c CELL_EMPTY" by blast
    moreover have "dfsLoop rnd k w h dirs m ((cx, cy) # stack) = dfsLoop rnd k' w h dirs' m stack"
      using None by (simp add: dirs'_def k'_def Let_def)
    ultimately show ?thesis by simp
  next
    case (Some d)
    obtain dx dy where d: "d = (dx, dy)" by (cases d)
    from Some d have fc: "firstCarvable m w h cx cy dirs' = Some (dx, dy)" by simp
    from dfsInv_carve[OF 2(3) fc d'(1)] obtain m1 m2 where
      s: "storeCell m (cx + dx) (cy + dy) CELL_EMPTY = Inr m1"
         "storeCell m1 (cx + dx div 2) (cy + dy div 2) CELL_EMPTY = Inr m2"
         "dfsInv w h s0 m2 ((cx + dx, cy + dy) # (cx, cy) # stack)"
         "\<forall>c. cellIs m c CELL_EMPTY \<longrightarrow> cellIs m2 c CELL_EMPTY"
      by blast
    from "2.IH"(2)[OF dirs'_def k'_def fc refl s(1) s(2) s(3) d']
    obtain m' where r: "dfsLoop rnd k' w h dirs' m2 ((cx + dx, cy + dy) # (cx, cy) # stack) = Inr m'"
      "dfsInv w h s0 m' []"
      "\<forall>c. cellIs m2 c CELL_EMPTY \<longrightarrow> cellIs m' c CELL_EMPTY" by blast
    have "dfsLoop rnd k w h dirs m ((cx, cy) # stack)
            = dfsLoop rnd k' w h dirs' m2 ((cx + dx, cy + dy) # (cx, cy) # stack)"
      using fc s(1,2) by (simp add: dirs'_def k'_def Let_def)
    with r s(4) show ?thesis by simp
  qed
qed

text \<open>At the end every lattice cell that can be reached from an EMPTY one by steps of two is EMPTY.\<close>

lemma dfsInv_final_step:
  assumes inv: "dfsInv w h s0 m []"
    and c: "lattice w h (cx, cy)" "cellIs m (cx, cy) CELL_EMPTY"
    and d: "(dx, dy) \<in> set dirs0" "interior w h (cx + dx, cy + dy)"
  shows "cellIs m (cx + dx, cy + dy) CELL_EMPTY"
proof -
  from inv c d have "\<not> cellIs m (cx + dx, cy + dy) CELL_WALL"
    unfolding dfsInv_def by auto
  moreover from inv interior_inGrid[OF d(2)]
  have "cellIs m (cx + dx, cy + dy) CELL_WALL \<or> cellIs m (cx + dx, cy + dy) CELL_EMPTY"
    unfolding dfsInv_def carvedInside_def by blast
  ultimately show ?thesis by simp
qed

lemma dfsInv_final_row:
  assumes inv: "dfsInv w h (1, 1) m []" and s: "cellIs m (1, 1) CELL_EMPTY"
  shows "interior w h (1 + 2 * int i, 1) \<Longrightarrow> cellIs m (1 + 2 * int i, 1) CELL_EMPTY"
proof (induction i)
  case 0
  with s show ?case by simp
next
  case (Suc i)
  then have i: "interior w h (1 + 2 * int i, 1)" by (simp add: interior_def)
  then have l: "lattice w h (1 + 2 * int i, 1)" by (simp add: lattice_def)
  have e: "(1 + 2 * int i + 2, 1 + 0) = (1 + 2 * int (Suc i), (1::int))" by simp
  from dfsInv_final_step[OF inv l Suc.IH[OF i], of 2 0] Suc.prems
  show ?case unfolding e by (simp add: dirs0_def)
qed

lemma dfsInv_final_all:
  assumes inv: "dfsInv w h (1, 1) m []" and s: "cellIs m (1, 1) CELL_EMPTY"
  shows "interior w h (1 + 2 * int i, 1 + 2 * int j) \<Longrightarrow>
           cellIs m (1 + 2 * int i, 1 + 2 * int j) CELL_EMPTY"
proof (induction j)
  case 0
  with dfsInv_final_row[OF inv s, of i] show ?case by simp
next
  case (Suc j)
  then have i: "interior w h (1 + 2 * int i, 1 + 2 * int j)" by (simp add: interior_def)
  then have l: "lattice w h (1 + 2 * int i, 1 + 2 * int j)" by (simp add: lattice_def)
  have e: "(1 + 2 * int i + 0, 1 + 2 * int j + 2) = (1 + 2 * int i, 1 + 2 * int (Suc j))" by simp
  from dfsInv_final_step[OF inv l Suc.IH[OF i], of 0 2] Suc.prems
  show ?case unfolding e by (simp add: dirs0_def)
qed

lemma dfsInv_final_lattice:
  assumes inv: "dfsInv w h (1, 1) m []" and s: "cellIs m (1, 1) CELL_EMPTY"
    and l: "lattice w h (cx, cy)"
  shows "cellIs m (cx, cy) CELL_EMPTY"
proof -
  from l have "0 < cx" "odd cx" "0 < cy" "odd cy" by (simp_all add: lattice_def interior_def)
  have half: "\<exists>i. a = 1 + 2 * int i" if "0 < a" "odd a" for a :: int
  proof -
    from that(2) obtain b where b: "a = 2 * b + 1" by (rule oddE)
    with that(1) have "0 \<le> b" by simp
    then have "a = 1 + 2 * int (nat b)" using b by simp
    then show ?thesis by blast
  qed
  from half[OF \<open>0 < cx\<close> \<open>odd cx\<close>] half[OF \<open>0 < cy\<close> \<open>odd cy\<close>]
  obtain i j where "cx = 1 + 2 * int i" "cy = 1 + 2 * int j" by blast
  with dfsInv_final_all[OF inv s, of i j] l show ?thesis by (simp add: lattice_def)
qed

lemma shaped_replicate_any:
  "0 \<le> w \<Longrightarrow> 0 \<le> h \<Longrightarrow> shaped w h (replicate (nat h) (replicate (nat w) val))"
  unfolding shaped_def by auto

lemma readCell_replicate:
  "readCell (replicate (nat h) (replicate (nat w) val)) cx cy =
     (if 0 \<le> cx \<and> cx < w \<and> 0 \<le> cy \<and> cy < h then Some val else None)"
  by (auto simp: readCell_def split: if_splits)

lemma dimensions_shaped:
  assumes "shaped w h m" "0 < h"
  shows "m \<noteq> []" "int (length (hd m)) = w" "int (length m) = h"
proof -
  from assms show ne: "m \<noteq> []" by (auto simp: shaped_def)
  then have "hd m = m ! 0" by (simp add: hd_conv_nth)
  with shaped_row[OF assms(1), of 0] assms(2) show "int (length (hd m)) = w" by simp
  from assms(1) show "int (length m) = h" by (simp add: shaped_def)
qed

lemma generateMaze_dfsInv:
  assumes "3 \<le> oddSize width" "3 \<le> oddSize height"
  shows "\<exists>m. generateMaze rnd width height = Inr m
           \<and> dfsInv (oddSize width) (oddSize height) (1, 1) m []
           \<and> cellIs m (1, 1) CELL_EMPTY"
proof -
  define w where "w = oddSize width"
  define h where "h = oddSize height"
  define m0 where "m0 = replicate (nat h) (replicate (nat w) CELL_WALL)"
  from assms have wh: "3 \<le> w" "3 \<le> h" by (simp_all add: w_def h_def)
  then have sh0: "shaped w h m0" unfolding m0_def by (intro shaped_replicate_any) simp_all
  from wh have hpos: "0 < h" by simp
  note dim = dimensions_shaped[OF sh0 hpos]
  from wh have b: "(0::int) \<le> 1" "1 < w" "(0::int) \<le> 1" "1 < h" by simp_all
  from storeCell_shaped[OF sh0 b, of CELL_EMPTY] obtain m1 where
    m1: "storeCell m0 1 1 CELL_EMPTY = Inr m1" "shaped w h m1"
      "\<And>a b. readCell m1 a b = (if a = 1 \<and> b = 1 then Some CELL_EMPTY else readCell m0 a b)"
    by blast
  have rd: "cellIs m1 c val \<longleftrightarrow>
              (if c = (1, 1) then val = CELL_EMPTY else inGrid w h c \<and> val = CELL_WALL)" for c val
    unfolding cellIs_def m1(3) m0_def readCell_replicate inGrid_def by (cases c) auto
  have int11: "interior w h (1, 1)" using wh by (simp add: interior_def)
  have lat11: "lattice w h (1, 1)" using int11 by (simp add: lattice_def)
  have emp: "cellIs m1 c CELL_EMPTY \<longleftrightarrow> c = (1, 1)" for c
    unfolding rd by (simp add: CELL_EMPTY_def CELL_WALL_def)
  have ci: "carvedInside w h m1"
    unfolding carvedInside_def rd using int11 by auto
  have conn: "\<forall>c. openCell m1 c \<longrightarrow> (\<exists>n. hops m1 (1, 1) n c)"
    unfolding openCell_shaped[OF m1(2) hpos] emp using hops_0 by blast
  have inv1: "dfsInv w h (1, 1) m1 [(1, 1)]"
    unfolding dfsInv_def using m1(2) hpos ci conn lat11 emp by auto
  have "set dirs0 = set dirs0" "length dirs0 = 4" by (simp_all add: dirs0_def)
  from dfsLoop_correct[OF inv1 this, of rnd 0] obtain m' where
    r: "dfsLoop rnd 0 w h dirs0 m1 [(1, 1)] = Inr m'" "dfsInv w h (1, 1) m' []"
      "\<forall>c. cellIs m1 c CELL_EMPTY \<longrightarrow> cellIs m' c CELL_EMPTY"
    by blast
  have "generateMazeDFS rnd m0 1 1 = Inr m'"
    unfolding generateMazeDFS_def using dim m1(1) r(1) by (simp add: Let_def)
  then have "generateMaze rnd width height = Inr m'"
    unfolding generateMaze_def Let_def m0_def w_def h_def oddSize_def by simp
  moreover from r(3) emp have "cellIs m' (1, 1) CELL_EMPTY" by blast
  ultimately show ?thesis using r(2) unfolding w_def h_def by blast
qed

text \<open>What every grid of the depth-first carve satisfies.\<close>

lemma generateMaze_props:
  assumes "3 \<le> oddSize width" "3 \<le> oddSize height"
  shows "\<exists>m. generateMaze rnd width height = Inr m
           \<and> shaped (oddSize width) (oddSize height) m
           \<and> carvedInside (oddSize width) (oddSize height) m
           \<and> (\<forall>c. lattice (oddSize width) (oddSize height) c \<longrightarrow> openCell m c)
           \<and> (\<forall>c. openCell m c \<longrightarrow> (\<exists>n. hops m (1, 1) n c))"
proof -
  from generateMaze_dfsInv[OF assms, of rnd] obtain m where
    m: "generateMaze rnd width height = Inr m"
       "dfsInv (oddSize width) (oddSize height) (1, 1) m []" "cellIs m (1, 1) CELL_EMPTY"
    by blast
  from m(2) have sh: "shaped (oddSize width) (oddSize height) m" and hp: "0 < oddSize height"
    and ci: "carvedInside (oddSize width) (oddSize height) m"
    and cn: "\<forall>c. openCell m c \<longrightarrow> (\<exists>n. hops m (1, 1) n c)"
    unfolding dfsInv_def by simp_all
  have "openCell m c" if "lattice (oddSize width) (oddSize height) c" for c
  proof -
    obtain cx cy where c: "c = (cx, cy)" by (cases c)
    from dfsInv_final_lattice[OF m(2,3)] that have "cellIs m c CELL_EMPTY" unfolding c by blast
    moreover from that have "inGrid (oddSize width) (oddSize height) c"
      by (simp add: lattice_def interior_inGrid)
    ultimately show ?thesis unfolding openCell_shaped[OF sh hp] by simp
  qed
  with m(1) sh ci cn show ?thesis by blast
qed

section \<open>What the corridor carve guarantees\<close>

lemma storeAll_shaped:
  assumes "shaped w h m" "\<forall>c \<in> set cs. inGrid w h c"
  shows "\<exists>m'. storeAll m cs val = Inr m' \<and> shaped w h m'
            \<and> (\<forall>c u. cellIs m' c u \<longleftrightarrow> (if c \<in> set cs then u = val else cellIs m c u))"
  using assms
proof (induction cs arbitrary: m)
  case Nil
  then show ?case by simp
next
  case (Cons a cs)
  obtain cx cy where a: "a = (cx, cy)" by (cases a)
  from Cons.prems(2) a have b: "0 \<le> cx" "cx < w" "0 \<le> cy" "cy < h"
    by (simp_all add: inGrid_def)
  from storeCell_shaped[OF Cons.prems(1) b, of val] obtain m1 where
    m1: "storeCell m cx cy val = Inr m1" "shaped w h m1"
      "\<And>p q. readCell m1 p q = (if p = cx \<and> q = cy then Some val else readCell m p q)"
    by blast
  from Cons.prems(2) have "\<forall>c \<in> set cs. inGrid w h c" by simp
  from Cons.IH[OF m1(2) this] obtain m' where
    m': "storeAll m1 cs val = Inr m'" "shaped w h m'"
      "\<And>c u. cellIs m' c u \<longleftrightarrow> (if c \<in> set cs then u = val else cellIs m1 c u)"
    by blast
  have "storeAll m (a # cs) val = Inr m'" using m1(1) m'(1) by (simp add: a)
  moreover have "cellIs m' c u \<longleftrightarrow> (if c \<in> set (a # cs) then u = val else cellIs m c u)" for c u
    unfolding m'(3) by (cases c) (auto simp: cellIs_def m1(3) a)
  ultimately show ?case using m'(2) by blast
qed

lemma createPath_props:
  assumes wh: "3 \<le> w" "3 \<le> h"
  shows "\<exists>m. generateMazeCorridor w h = Inr m \<and> shaped w h m
           \<and> (\<forall>c. inGrid w h c \<longrightarrow>
                  cellIs m c CELL_WALL \<or> (cellIs m c CELL_EMPTY \<and> interior w h c))
           \<and> (\<forall>cx. 1 \<le> cx \<and> cx \<le> w - 2 \<longrightarrow> cellIs m (cx, 1) CELL_EMPTY)
           \<and> (\<forall>cy. 1 \<le> cy \<and> cy \<le> h - 2 \<longrightarrow> cellIs m (w - 2, cy) CELL_EMPTY)"
proof -
  define m0 where "m0 = replicate (nat h) (replicate (nat w) CELL_WALL)"
  define c1 where "c1 = concat (map (\<lambda>x. [(x, 1), (x, h - 2)]) [1..w - 2])"
  define c2 where "c2 = concat (map (\<lambda>y. [(1, y), (w - 2, y)]) [1..h - 2])"
  define c3 where "c3 = map (\<lambda>x. (x, h div 2)) [2..w - 3]"
  define c4 where "c4 = map (\<lambda>y. (w div 2, y)) [2..h - 3]"
  from wh have sh0: "shaped w h m0" unfolding m0_def by (intro shaped_replicate_any) simp_all
  have r0: "cellIs m0 c u \<longleftrightarrow> inGrid w h c \<and> u = CELL_WALL" for c u
    unfolding cellIs_def m0_def readCell_replicate inGrid_def by auto
  have i1: "\<forall>c \<in> set c1. interior w h c" using wh by (auto simp: c1_def interior_def)
  have i2: "\<forall>c \<in> set c2. interior w h c" using wh by (auto simp: c2_def interior_def)
  have i3: "\<forall>c \<in> set c3. interior w h c" using wh by (auto simp: c3_def interior_def)
  have i4: "\<forall>c \<in> set c4. interior w h c" using wh by (auto simp: c4_def interior_def)
  from i1 have g1: "\<forall>c \<in> set c1. inGrid w h c" using interior_inGrid by blast
  from i2 have g2: "\<forall>c \<in> set c2. inGrid w h c" using interior_inGrid by blast
  from i3 have g3: "\<forall>c \<in> set c3. inGrid w h c" using interior_inGrid by blast
  from i4 have g4: "\<forall>c \<in> set c4. inGrid w h c" using interior_inGrid by blast
  from storeAll_shaped[OF sh0 g1, of CELL_EMPTY] obtain m1 where
    m1: "storeAll m0 c1 CELL_EMPTY = Inr m1" "shaped w h m1"
      "\<And>c u. cellIs m1 c u \<longleftrightarrow> (if c \<in> set c1 then u = CELL_EMPTY else cellIs m0 c u)"
    by blast
  from storeAll_shaped[OF m1(2) g2, of CELL_EMPTY] obtain m2 where
    m2: "storeAll m1 c2 CELL_EMPTY = Inr m2" "shaped w h m2"
      "\<And>c u. cellIs m2 c u \<longleftrightarrow> (if c \<in> set c2 then u = CELL_EMPTY else cellIs m1 c u)"
    by blast
  from storeAll_shaped[OF m2(2) g3, of CELL_EMPTY] obtain m3 where
    m3: "storeAll m2 c3 CELL_EMPTY = Inr m3" "shaped w h m3"
      "\<And>c u. cellIs m3 c u \<longleftrightarrow> (if c \<in> set c3 then u = CELL_EMPTY else cellIs m2 c u)"
    by blast
  from storeAll_shaped[OF m3(2) g4, of CELL_EMPTY] obtain m4 where
    m4: "storeAll m3 c4 CELL_EMPTY = Inr m4" "shaped w h m4"
      "\<And>c u. cellIs m4 c u \<longleftrightarrow> (if c \<in> set c4 then u = CELL_EMPTY else cellIs m3 c u)"
    by blast
  define S where "S = set c1 \<union> set c2 \<union> set c3 \<union> set c4"
  have r4: "cellIs m4 c u \<longleftrightarrow> (if c \<in> S then u = CELL_EMPTY else inGrid w h c \<and> u = CELL_WALL)"
    for c u
    unfolding m4(3) m3(3) m2(3) m1(3) r0 S_def by auto
  have Sint: "c \<in> S \<Longrightarrow> interior w h c" for c
    using i1 i2 i3 i4 unfolding S_def by blast
  have row: "(cx, 1) \<in> S" if "1 \<le> cx \<and> cx \<le> w - 2" for cx
    using that unfolding S_def c1_def by auto
  have col: "(w - 2, cy) \<in> S" if "1 \<le> cy \<and> cy \<le> h - 2" for cy
    using that unfolding S_def c2_def by auto
  have cp: "generateMazeCorridor w h =
              (if w > 5 \<and> h > 5
               then (case storeCell m4 3 2 CELL_WALL of
                       Inl e \<Rightarrow> Inl e
                     | Inr m5 \<Rightarrow> storeCell m5 (w - 4) (h - 3) CELL_WALL)
               else Inr m4)"
    unfolding generateMazeCorridor_def createPath_def m0_def[symmetric] c1_def[symmetric]
      c2_def[symmetric] Let_def c3_def[symmetric] c4_def[symmetric]
    using m1(1) m2(1) m3(1) m4(1) by simp
  show ?thesis
  proof (cases "w > 5 \<and> h > 5")
    case False
    with cp have "generateMazeCorridor w h = Inr m4" by simp
    moreover have "\<forall>c. inGrid w h c \<longrightarrow>
                  cellIs m4 c CELL_WALL \<or> (cellIs m4 c CELL_EMPTY \<and> interior w h c)"
      unfolding r4 using Sint by auto
    moreover have "\<forall>cx. 1 \<le> cx \<and> cx \<le> w - 2 \<longrightarrow> cellIs m4 (cx, 1) CELL_EMPTY"
      unfolding r4 using row by simp
    moreover have "\<forall>cy. 1 \<le> cy \<and> cy \<le> h - 2 \<longrightarrow> cellIs m4 (w - 2, cy) CELL_EMPTY"
      unfolding r4 using col by simp
    ultimately show ?thesis using m4(2) by blast
  next
    case True
    then have b5: "(0::int) \<le> 3" "3 < w" "(0::int) \<le> 2" "2 < h"
      and b6: "0 \<le> w - 4" "w - 4 < w" "0 \<le> h - 3" "h - 3 < h" by simp_all
    from storeCell_shaped[OF m4(2) b5, of CELL_WALL] obtain m5 where
      m5: "storeCell m4 3 2 CELL_WALL = Inr m5" "shaped w h m5"
        "\<And>p q. readCell m5 p q = (if p = 3 \<and> q = 2 then Some CELL_WALL else readCell m4 p q)"
      by blast
    from storeCell_shaped[OF m5(2) b6, of CELL_WALL] obtain m6 where
      m6: "storeCell m5 (w - 4) (h - 3) CELL_WALL = Inr m6" "shaped w h m6"
        "\<And>p q. readCell m6 p q = (if p = w - 4 \<and> q = h - 3 then Some CELL_WALL
                                     else readCell m5 p q)"
      by blast
    have r6: "cellIs m6 c u \<longleftrightarrow>
                (if c = (w - 4, h - 3) \<or> c = (3, 2) then u = CELL_WALL else cellIs m4 c u)" for c u
      unfolding cellIs_def m6(3) m5(3) by (cases c) auto
    from cp True m5(1) m6(1) have "generateMazeCorridor w h = Inr m6" by simp
    moreover have "\<forall>c. inGrid w h c \<longrightarrow>
                  cellIs m6 c CELL_WALL \<or> (cellIs m6 c CELL_EMPTY \<and> interior w h c)"
      unfolding r6 r4 using Sint by auto
    moreover have "\<forall>cx. 1 \<le> cx \<and> cx \<le> w - 2 \<longrightarrow> cellIs m6 (cx, 1) CELL_EMPTY"
      unfolding r6 r4 using row True by auto
    moreover have "\<forall>cy. 1 \<le> cy \<and> cy \<le> h - 2 \<longrightarrow> cellIs m6 (w - 2, cy) CELL_EMPTY"
      unfolding r6 r4 using col True by auto
    ultimately show ?thesis using m6(2) by blast
  qed
qed

lemma hops_east:
  assumes "hops m s n (cx, cy)" "\<forall>i. 1 \<le> i \<and> i \<le> int k \<longrightarrow> openCell m (cx + i, cy)"
  shows "hops m s (n + k) (cx + int k, cy)"
  using assms(2)
proof (induction k)
  case 0
  with assms(1) show ?case by simp
next
  case (Suc k)
  then have "hops m s (n + k) (cx + int k, cy)" by simp
  moreover have "adjacent (cx + int k, cy) (cx + int (Suc k), cy)" by (simp add: adjacent_def)
  moreover from Suc.prems have "openCell m (cx + int (Suc k), cy)" by simp
  ultimately have "hops m s (Suc (n + k)) (cx + int (Suc k), cy)" by (rule hops_Suc)
  then show ?case by simp
qed

lemma hops_south:
  assumes "hops m s n (cx, cy)" "\<forall>i. 1 \<le> i \<and> i \<le> int k \<longrightarrow> openCell m (cx, cy + i)"
  shows "hops m s (n + k) (cx, cy + int k)"
  using assms(2)
proof (induction k)
  case 0
  with assms(1) show ?case by simp
next
  case (Suc k)
  then have "hops m s (n + k) (cx, cy + int k)" by simp
  moreover have "adjacent (cx, cy + int k) (cx, cy + int (Suc k))" by (simp add: adjacent_def)
  moreover from Suc.prems have "openCell m (cx, cy + int (Suc k))" by simp
  ultimately have "hops m s (Suc (n + k)) (cx, cy + int (Suc k))" by (rule hops_Suc)
  then show ?case by simp
qed

lemma corridor_connected:
  assumes wh: "3 \<le> w" "3 \<le> h"
  shows "\<exists>m. generateMazeCorridor w h = Inr m \<and> shaped w h m
           \<and> (\<forall>c. inGrid w h c \<and> \<not> interior w h c \<longrightarrow> cellIs m c CELL_WALL)
           \<and> openCell m (1, 1) \<and> openCell m (w - 2, h - 2)
           \<and> hops m (1, 1) (nat (w - 3) + nat (h - 3)) (w - 2, h - 2)"
proof -
  from createPath_props[OF wh] obtain m where
    m: "generateMazeCorridor w h = Inr m" "shaped w h m"
      "\<forall>c. inGrid w h c \<longrightarrow> cellIs m c CELL_WALL \<or> (cellIs m c CELL_EMPTY \<and> interior w h c)"
      "\<forall>cx. 1 \<le> cx \<and> cx \<le> w - 2 \<longrightarrow> cellIs m (cx, 1) CELL_EMPTY"
      "\<forall>cy. 1 \<le> cy \<and> cy \<le> h - 2 \<longrightarrow> cellIs m (w - 2, cy) CELL_EMPTY"
    by blast
  from wh have hp: "0 < h" by simp
  note oc = openCell_shaped[OF m(2) hp]
  have rowo: "openCell m (cx, 1)" if "1 \<le> cx \<and> cx \<le> w - 2" for cx
    unfolding oc using m(4) that wh by (simp add: inGrid_def)
  have colo: "openCell m (w - 2, cy)" if "1 \<le> cy \<and> cy \<le> h - 2" for cy
    unfolding oc using m(5) that wh by (simp add: inGrid_def)
  have "hops m (1, 1) 0 (1, 1)" by (rule hops_0)
  from hops_east[OF this, of "nat (w - 3)"] rowo wh
  have e: "hops m (1, 1) (nat (w - 3)) (w - 2, 1)" by simp
  from hops_south[OF e, of "nat (h - 3)"] colo wh
  have "hops m (1, 1) (nat (w - 3) + nat (h - 3)) (w - 2, h - 2)" by simp
  moreover have "openCell m (1, 1)" using rowo[of 1] wh by simp
  moreover have "openCell m (w - 2, h - 2)" using colo[of "h - 2"] wh by simp
  moreover have "\<forall>c. inGrid w h c \<and> \<not> interior w h c \<longrightarrow> cellIs m c CELL_WALL"
    using m(3) by blast
  ultimately show ?thesis using m(1,2) by blast
qed

section \<open>The constructor and the generated grids\<close>

lemma constructorGameLogic_newGame:
  "generateMaze rnd width height = Inr m \<Longrightarrow>
     constructorGameLogic rnd width height = Inr (newGame width height m)"
  by (simp add: constructorGameLogic_def newGame_def)

lemma resetGame_newGame:
  assumes "shaped w h (maze s)" "0 < h" "generateMaze rnd w h = Inr m"
  shows "resetGame rnd s = Inr (newGame w h m)"
  using dimensions_shaped[OF assms(1,2)] assms(3)
  by (simp add: resetGame_def newGame_def Let_def)

lemma hops_into_closed:
  assumes "\<not> openCell m g" "g \<noteq> src"
  shows "\<not> hops m src n g"
proof
  assume "hops m src n g"
  then show False using assms by (cases rule: hops.cases) auto
qed

lemma carvedInside_even_wall:
  assumes "carvedInside w h m" "inGrid w h (cx, cy)" "even cx" "even cy"
  shows "cellIs m (cx, cy) CELL_WALL"
  using assms unfolding carvedInside_def by fastforce

lemma cellIs_not_both: "cellIs m c CELL_EMPTY \<Longrightarrow> \<not> cellIs m c CELL_WALL"
  by (simp add: cellIs_def CELL_EMPTY_def CELL_WALL_def)

lemma carvedInside_open_interior:
  assumes "carvedInside w h m" "inGrid w h c" "cellIs m c CELL_EMPTY"
  shows "interior w h c"
  using assms cellIs_not_both[OF assms(3)] unfolding carvedInside_def by blast

lemma carvedInside_border:
  assumes "carvedInside w h m"
  shows "borderIsWall w h m"
  using assms unfolding carvedInside_def borderIsWall_def by blast

lemma searchable_newGame:
  assumes "shaped w h m" "1 < h"
  shows "searchable (newGame width height m)"
  using dimensions_shaped[OF assms(1)] assms(2) by (simp add: searchable_def newGame_def)

section \<open>The claims\<close>

text \<open>
  C1 (violated by the code). Claim: a move into an in-bounds EMPTY cell reports as
  \<open>distanceToGoal\<close> the breadth-first distance from the new position to the goal, and
  adds one to \<open>moveCount\<close>. What the code does on every state the search runs on: a move
  that is not blocked adds one to \<open>moveCount\<close> and reports \<open>getDistance\<close> of the new
  position and the goal, the Manhattan distance. On the game generated with all draws 0,
  the first move south goes from (1,1) to the EMPTY cell (1,2) and reports 7, while the
  search on the resulting state gives 11.
\<close>

theorem movePlayer_advance_reports_manhattan:
  "(searchable s \<and> \<not> targetBlocked s d \<longrightarrow>
      (\<exists>out. fst (movePlayer s d) = Inr out \<and> success out
          \<and> distanceToGoal out = getDistance (getNewPosition s d) (goalPosition s))
      \<and> moveCount (snd (movePlayer s d)) = moveCount s + 1)
   \<and> constructorGameLogic (\<lambda>k. 0) 7 7 = Inr (stateA 1 1 False 0)
   \<and> readCell mazeA 1 2 = Some CELL_EMPTY
   \<and> movePlayer (stateA 1 1 False 0) south =
       (Inr \<lparr>success = True, hitWall = False, isCorrectDirection = True, distanceToGoal = 7\<rparr>,
        stateA 1 2 False 1)
   \<and> getDistanceToGoal (stateA 1 2 False 1) = Inr 11"
proof (intro conjI impI)
  assume a: "searchable s \<and> \<not> targetBlocked s d"
  then obtain cur where cur: "getDistanceToGoal s = Inr cur"
    using getDistanceToGoal_searchable by blast
  from a have a1: "searchable s" and a2: "\<not> targetBlocked s d" by simp_all
  note mv = movePlayer_advance[OF a1 a2 cur]
  show "\<exists>out. fst (movePlayer s d) = Inr out \<and> success out
          \<and> distanceToGoal out = getDistance (getNewPosition s d) (goalPosition s)"
    unfolding mv by (simp add: Let_def)
  show "moveCount (snd (movePlayer s d)) = moveCount s + 1"
    unfolding mv by (simp add: Let_def)
next
  show "constructorGameLogic (\<lambda>k. 0) 7 7 = Inr (stateA 1 1 False 0)"
    by (rule stateA_generated)
  show "readCell mazeA 1 2 = Some CELL_EMPTY" by code_simp
  show "movePlayer (stateA 1 1 False 0) south =
       (Inr \<lparr>success = True, hitWall = False, isCorrectDirection = True, distanceToGoal = 7\<rparr>,
        stateA 1 2 False 1)"
    by code_simp
  show "getDistanceToGoal (stateA 1 2 False 1) = Inr 11" by code_simp
qed

theorem movePlayer_advance_reports_manhattan_witness:
  "searchable (stateA 1 1 False 0) \<and> \<not> targetBlocked (stateA 1 1 False 0) south
   \<and> (\<exists>out. fst (movePlayer (stateA 1 1 False 0) south) = Inr out \<and> success out
           \<and> distanceToGoal out = 7)
   \<and> getDistanceToGoal (snd (movePlayer (stateA 1 1 False 0) south)) = Inr 11
   \<and> moveCount (snd (movePlayer (stateA 1 1 False 0) south)) = 1"
proof -
  have h: "searchable (stateA 1 1 False 0)" "\<not> targetBlocked (stateA 1 1 False 0) south"
    by code_simp+
  have g: "getDistance (getNewPosition (stateA 1 1 False 0) south)
             (goalPosition (stateA 1 1 False 0)) = 7"
    "moveCount (stateA 1 1 False 0) = 0"
    by code_simp+
  from movePlayer_advance_reports_manhattan[of "stateA 1 1 False 0" south] h g
  show ?thesis by (auto simp: stateA_def)
qed

text \<open>
  C2 (violated by the code). Claim: \<open>isCorrectDirection\<close> is true exactly when the move
  advanced and the shortest-path distance to the goal became strictly smaller, and is
  false on every blocked move. What the code does: on a blocked move the flag is false;
  on a move that is not blocked the flag says that the Manhattan distance of the new
  position is below the search distance of the old one. In the game generated with all
  draws 0, after the move south the search distance is 11; the move back north is
  reported with the flag true (8 is below 11), and the search distance after it is 12.
\<close>

theorem movePlayer_flag_true_on_increase:
  "(searchable s \<and> \<not> targetBlocked s d \<and> getDistanceToGoal s = Inr cur \<longrightarrow>
      (\<exists>out. fst (movePlayer s d) = Inr out
          \<and> (isCorrectDirection out \<longleftrightarrow>
                getDistance (getNewPosition s d) (goalPosition s) < cur)))
   \<and> (targetBlocked s d \<and> fst (movePlayer s d) = Inr out' \<longrightarrow> \<not> isCorrectDirection out')
   \<and> snd (movePlayer (stateA 1 1 False 0) south) = stateA 1 2 False 1
   \<and> getDistanceToGoal (stateA 1 2 False 1) = Inr 11
   \<and> movePlayer (stateA 1 2 False 1) north =
       (Inr \<lparr>success = True, hitWall = False, isCorrectDirection = True, distanceToGoal = 8\<rparr>,
        stateA 1 1 False 2)
   \<and> getDistanceToGoal (stateA 1 1 False 2) = Inr 12"
proof (intro conjI impI)
  assume a: "searchable s \<and> \<not> targetBlocked s d \<and> getDistanceToGoal s = Inr cur"
  then have a1: "searchable s" and a2: "\<not> targetBlocked s d"
    and a3: "getDistanceToGoal s = Inr cur" by simp_all
  show "\<exists>out. fst (movePlayer s d) = Inr out
          \<and> (isCorrectDirection out \<longleftrightarrow>
                getDistance (getNewPosition s d) (goalPosition s) < cur)"
    unfolding movePlayer_advance[OF a1 a2 a3] by (simp add: Let_def)
next
  assume b: "targetBlocked s d \<and> fst (movePlayer s d) = Inr out'"
  then have "targetBlocked s d" by simp
  from movePlayer_blocked[OF this] b show "\<not> isCorrectDirection out'"
    by (auto split: sum.splits)
next
  show "snd (movePlayer (stateA 1 1 False 0) south) = stateA 1 2 False 1" by code_simp
  show "getDistanceToGoal (stateA 1 2 False 1) = Inr 11" by code_simp
  show "movePlayer (stateA 1 2 False 1) north =
       (Inr \<lparr>success = True, hitWall = False, isCorrectDirection = True, distanceToGoal = 8\<rparr>,
        stateA 1 1 False 2)"
    by code_simp
  show "getDistanceToGoal (stateA 1 1 False 2) = Inr 12" by code_simp
qed

theorem movePlayer_flag_true_on_increase_witness:
  "searchable (stateA 1 2 False 1) \<and> \<not> targetBlocked (stateA 1 2 False 1) north
   \<and> targetBlocked (stateA 1 2 False 1) east
   \<and> getDistanceToGoal (stateA 1 2 False 1) = Inr 11
   \<and> (\<exists>out. fst (movePlayer (stateA 1 2 False 1) north) = Inr out \<and> isCorrectDirection out)
   \<and> getDistanceToGoal (snd (movePlayer (stateA 1 2 False 1) north)) = Inr 12
   \<and> (\<exists>out. fst (movePlayer (stateA 1 2 False 1) east) = Inr out \<and> \<not> isCorrectDirection out)"
proof -
  have h: "searchable (stateA 1 2 False 1)" "\<not> targetBlocked (stateA 1 2 False 1) north"
    "targetBlocked (stateA 1 2 False 1) east"
    "getDistanceToGoal (stateA 1 2 False 1) = Inr 11"
    by code_simp+
  have g: "getDistance (getNewPosition (stateA 1 2 False 1) north)
             (goalPosition (stateA 1 2 False 1)) = 8"
    by code_simp
  have e: "fst (movePlayer (stateA 1 2 False 1) east) =
             Inr \<lparr>success = False, hitWall = True, isCorrectDirection = False,
                  distanceToGoal = 11\<rparr>"
    by code_simp
  note t = movePlayer_flag_true_on_increase
  from t[of "stateA 1 2 False 1" north 11] h g
  have 1: "\<exists>out. fst (movePlayer (stateA 1 2 False 1) north) = Inr out \<and> isCorrectDirection out"
    by simp
  from t[of "stateA 1 2 False 1" east 11] h e
  have 2: "\<exists>out. fst (movePlayer (stateA 1 2 False 1) east) = Inr out \<and> \<not> isCorrectDirection out"
    by simp
  from t[of "stateA 1 2 False 1" north 11]
  have 3: "getDistanceToGoal (snd (movePlayer (stateA 1 2 False 1) north)) = Inr 12"
    by simp
  from h 1 2 3 show ?thesis by simp
qed

text \<open>
  C3, the claim as stated: once \<open>gameWon\<close> is true, every \<open>movePlayer\<close> call leaves the
  state unchanged and returns a blocked outcome. It fails: in the game generated with
  all draws 0 the player reaches the goal (5,5) after twelve moves, \<open>gameWon\<close> is true,
  and the next move west succeeds, moves the player to (4,5) and counts as move 13.
\<close>

theorem movePlayer_after_win_counterexample:
  "play (stateA 1 1 False 0)
     [south, south, east, east, north, north, east, east, south, south, south, south]
     = stateA 5 5 True 12
   \<and> gameWon (stateA 5 5 True 12)
   \<and> movePlayer (stateA 5 5 True 12) west =
       (Inr \<lparr>success = True, hitWall = False, isCorrectDirection = False, distanceToGoal = 1\<rparr>,
        stateA 4 5 True 13)
   \<and> stateA 4 5 True 13 \<noteq> stateA 5 5 True 12"
proof (intro conjI)
  show "play (stateA 1 1 False 0)
     [south, south, east, east, north, north, east, east, south, south, south, south]
     = stateA 5 5 True 12"
    by (rule stateA_won_reached)
  show "gameWon (stateA 5 5 True 12)" by (simp add: stateA_def)
  show "movePlayer (stateA 5 5 True 12) west =
       (Inr \<lparr>success = True, hitWall = False, isCorrectDirection = False, distanceToGoal = 1\<rparr>,
        stateA 4 5 True 13)"
    by code_simp
  show "stateA 4 5 True 13 \<noteq> stateA 5 5 True 12" by (simp add: stateA_def)
qed

text \<open>
  C3, amended: \<open>movePlayer\<close> does not read \<open>gameWon\<close> and never clears it. It never
  changes the grid or the goal. A blocked move leaves the whole state unchanged. On a
  state the search runs on, a move whose target is in bounds and not a wall succeeds
  whether or not the game is won: the player is at the target, \<open>moveCount\<close> is one more,
  and \<open>gameWon\<close> afterwards holds exactly when it held before or the target is the goal.
\<close>

theorem movePlayer_gameWon_monotone:
  "(gameWon s \<longrightarrow> gameWon (snd (movePlayer s d)))
   \<and> maze (snd (movePlayer s d)) = maze s
   \<and> goalPosition (snd (movePlayer s d)) = goalPosition s
   \<and> (targetBlocked s d \<longrightarrow> snd (movePlayer s d) = s)
   \<and> (searchable s \<and> \<not> targetBlocked s d \<longrightarrow>
        (\<exists>out. fst (movePlayer s d) = Inr out \<and> success out \<and> \<not> hitWall out)
        \<and> playerPosition (snd (movePlayer s d)) = getNewPosition s d
        \<and> moveCount (snd (movePlayer s d)) = moveCount s + 1
        \<and> (gameWon (snd (movePlayer s d)) \<longleftrightarrow>
             gameWon s \<or> cellOf (getNewPosition s d) = cellOf (goalPosition s)))"
proof (intro conjI impI)
  show "gameWon s \<Longrightarrow> gameWon (snd (movePlayer s d))"
    and "maze (snd (movePlayer s d)) = maze s"
    and "goalPosition (snd (movePlayer s d)) = goalPosition s"
    using movePlayer_frame[of s d] by simp_all
  show "targetBlocked s d \<Longrightarrow> snd (movePlayer s d) = s"
    by (simp add: movePlayer_blocked split: sum.splits)
next
  assume a: "searchable s \<and> \<not> targetBlocked s d"
  then obtain cur where cur: "getDistanceToGoal s = Inr cur"
    using getDistanceToGoal_searchable by blast
  from a have a1: "searchable s" and a2: "\<not> targetBlocked s d" by simp_all
  note mv = movePlayer_advance[OF a1 a2 cur]
  show "\<exists>out. fst (movePlayer s d) = Inr out \<and> success out \<and> \<not> hitWall out"
    unfolding mv by (simp add: Let_def)
  show "playerPosition (snd (movePlayer s d)) = getNewPosition s d"
    unfolding mv by (simp add: Let_def)
  show "moveCount (snd (movePlayer s d)) = moveCount s + 1"
    unfolding mv by (simp add: Let_def)
  show "gameWon (snd (movePlayer s d)) \<longleftrightarrow>
          gameWon s \<or> cellOf (getNewPosition s d) = cellOf (goalPosition s)"
    unfolding mv by (auto simp: Let_def cellOf_def)
qed

theorem movePlayer_gameWon_monotone_witness:
  "gameWon (stateA 5 5 True 12) \<and> searchable (stateA 5 5 True 12)
   \<and> \<not> targetBlocked (stateA 5 5 True 12) west
   \<and> targetBlocked (stateA 5 5 True 12) east
   \<and> gameWon (snd (movePlayer (stateA 5 5 True 12) west))
   \<and> playerPosition (snd (movePlayer (stateA 5 5 True 12) west)) = \<lparr>pos_x = 4, pos_y = 5\<rparr>
   \<and> moveCount (snd (movePlayer (stateA 5 5 True 12) west)) = 13
   \<and> snd (movePlayer (stateA 5 5 True 12) east) = stateA 5 5 True 12"
proof -
  have h: "gameWon (stateA 5 5 True 12)" "searchable (stateA 5 5 True 12)"
    "\<not> targetBlocked (stateA 5 5 True 12) west" "targetBlocked (stateA 5 5 True 12) east"
    by code_simp+
  have t: "getNewPosition (stateA 5 5 True 12) west = \<lparr>pos_x = 4, pos_y = 5\<rparr>"
    "moveCount (stateA 5 5 True 12) = 12"
    by code_simp+
  from movePlayer_gameWon_monotone[of "stateA 5 5 True 12" west]
       movePlayer_gameWon_monotone[of "stateA 5 5 True 12" east] h t
  show ?thesis by simp
qed

text \<open>
  C4 (violated by the code). Claim: in every generated grid the start (1,1) and the goal
  are EMPTY and connected, so the search distance from start to goal is below 9999. For
  a request with even width and even height, such as (4,4), whatever the random draws,
  the constructor builds the grid one larger each way with the start EMPTY, and puts
  the goal at (width-2, height-2), a cell with two even coordinates that the carve
  never opens: the goal is a wall, no path reaches it, and the search returns 9999.
\<close>

theorem constructorGameLogic_even_request_unsolvable:
  "even width \<and> even height \<and> 2 \<le> width \<and> 2 \<le> height \<longrightarrow>
     (\<exists>s. constructorGameLogic rnd width height = Inr s
          \<and> shaped (width + 1) (height + 1) (maze s)
          \<and> cellOf (playerPosition s) = (1, 1) \<and> openCell (maze s) (1, 1)
          \<and> cellOf (goalPosition s) = (width - 2, height - 2)
          \<and> cellIs (maze s) (width - 2, height - 2) CELL_WALL
          \<and> (\<forall>n. \<not> hops (maze s) (1, 1) n (width - 2, height - 2))
          \<and> getDistanceToGoal s = Inr 9999)"
proof
  assume a: "even width \<and> even height \<and> 2 \<le> width \<and> 2 \<le> height"
  then have o: "oddSize width = width + 1" "oddSize height = height + 1"
    by (simp_all add: oddSize_def)
  from a have b: "3 \<le> oddSize width" "3 \<le> oddSize height" unfolding o by simp_all
  from generateMaze_props[OF b, of rnd] obtain m where
    m: "generateMaze rnd width height = Inr m" "shaped (width + 1) (height + 1) m"
       "carvedInside (width + 1) (height + 1) m"
       "\<forall>c. lattice (width + 1) (height + 1) c \<longrightarrow> openCell m c"
    unfolding o by blast
  let ?s = "newGame width height m"
  let ?g = "(width - 2, height - 2)"
  have c: "maze ?s = m" "cellOf (playerPosition ?s) = (1, 1)" "cellOf (goalPosition ?s) = ?g"
    by (simp_all add: newGame_def cellOf_def)
  from a have "lattice (width + 1) (height + 1) (1, 1)" by (simp add: lattice_def interior_def)
  with m(4) have op: "openCell m (1, 1)" by blast
  from a have w: "cellIs m ?g CELL_WALL"
    by (intro carvedInside_even_wall[OF m(3)]) (simp_all add: inGrid_def)
  then have "\<not> openCell m ?g"
    by (simp add: openCell_def cellIs_def CELL_WALL_def CELL_EMPTY_def)
  moreover from a have "?g \<noteq> (1, 1)" by auto
  ultimately have nh: "\<not> hops m (1, 1) n ?g" for n
    by (rule hops_into_closed)
  from a have "searchable ?s" by (intro searchable_newGame[OF m(2)]) simp
  from getDistanceToGoal_searchable[OF this] nh have "getDistanceToGoal ?s = Inr 9999"
    unfolding c bfsResult_def by auto
  with constructorGameLogic_newGame[OF m(1)] m(2) op w nh c
  show "\<exists>s. constructorGameLogic rnd width height = Inr s
          \<and> shaped (width + 1) (height + 1) (maze s)
          \<and> cellOf (playerPosition s) = (1, 1) \<and> openCell (maze s) (1, 1)
          \<and> cellOf (goalPosition s) = (width - 2, height - 2)
          \<and> cellIs (maze s) (width - 2, height - 2) CELL_WALL
          \<and> (\<forall>n. \<not> hops (maze s) (1, 1) n (width - 2, height - 2))
          \<and> getDistanceToGoal s = Inr 9999"
    by (intro exI[of _ ?s]) simp
qed

theorem constructorGameLogic_even_request_unsolvable_witness:
  "even (4::int) \<and> (2::int) \<le> 4
   \<and> constructorGameLogic (\<lambda>k. 0) 4 4 = Inr (newGame 4 4 mazeB)
   \<and> cellOf (goalPosition (newGame 4 4 mazeB)) = (2, 2)
   \<and> cellIs mazeB (2, 2) CELL_WALL
   \<and> getDistanceToGoal (newGame 4 4 mazeB) = Inr 9999"
proof -
  have h: "even (4::int) \<and> even (4::int) \<and> (2::int) \<le> 4 \<and> (2::int) \<le> 4" by simp
  have e: "constructorGameLogic (\<lambda>k. 0) 4 4 = Inr (newGame 4 4 mazeB)" by code_simp
  from constructorGameLogic_even_request_unsolvable[of 4 4 "\<lambda>k. 0"] h e
  show ?thesis by (auto simp: newGame_def)
qed

text \<open>
  C5 (violated by the code). Claim: even sizes are coerced to the next odd value before
  generation and the goal is the cell (width-2, height-2) of the coerced grid; the
  request (4,4) gives a 5 by 5 grid with goal (3,3). What the code does, whatever the
  random draws: the grid has the adjusted sizes (from 3 on; smaller ones are not
  raised), but the constructor takes the goal from the requested sizes, while
  \<open>resetGame\<close> on the same state takes it from the grid. For the request (4,4) the grid
  is 5 by 5 and the goal is (2,2), which is a wall; after \<open>resetGame\<close> the goal is (3,3),
  an EMPTY cell.
\<close>

theorem constructorGameLogic_goal_from_requested_size:
  "(3 \<le> oddSize width \<and> 3 \<le> oddSize height \<longrightarrow>
      (\<exists>s. constructorGameLogic rnd width height = Inr s
           \<and> shaped (oddSize width) (oddSize height) (maze s)
           \<and> goalPosition s = \<lparr>pos_x = width - 2, pos_y = height - 2\<rparr>
           \<and> (\<exists>s'. resetGame rnd' s = Inr s'
                    \<and> shaped (oddSize width) (oddSize height) (maze s')
                    \<and> goalPosition s' =
                         \<lparr>pos_x = oddSize width - 2, pos_y = oddSize height - 2\<rparr>)))
   \<and> oddSize 4 = 5
   \<and> (\<exists>s. constructorGameLogic rnd 4 4 = Inr s
           \<and> shaped 5 5 (maze s)
           \<and> goalPosition s = \<lparr>pos_x = 2, pos_y = 2\<rparr>
           \<and> cellIs (maze s) (2, 2) CELL_WALL
           \<and> (\<exists>s'. resetGame rnd' s = Inr s' \<and> shaped 5 5 (maze s')
                    \<and> goalPosition s' = \<lparr>pos_x = 3, pos_y = 3\<rparr>
                    \<and> cellIs (maze s') (3, 3) CELL_EMPTY))"
proof (intro conjI impI)
  assume a: "3 \<le> oddSize width \<and> 3 \<le> oddSize height"
  then have b: "3 \<le> oddSize width" "3 \<le> oddSize height" by simp_all
  have idem: "oddSize (oddSize n) = oddSize n" for n
    unfolding oddSize_def by presburger
  from generateMaze_props[OF b, of rnd] obtain m where
    m: "generateMaze rnd width height = Inr m" "shaped (oddSize width) (oddSize height) m"
    by blast
  from b have b': "3 \<le> oddSize (oddSize width)" "3 \<le> oddSize (oddSize height)"
    by (simp_all add: idem)
  from generateMaze_props[OF b', of rnd'] obtain m' where
    m': "generateMaze rnd' (oddSize width) (oddSize height) = Inr m'"
        "shaped (oddSize width) (oddSize height) m'"
    unfolding idem by blast
  let ?s = "newGame width height m"
  have "shaped (oddSize width) (oddSize height) (maze ?s)" using m(2) by (simp add: newGame_def)
  from resetGame_newGame[OF this _ m'(1)] b
  have r: "resetGame rnd' ?s = Inr (newGame (oddSize width) (oddSize height) m')" by simp
  from constructorGameLogic_newGame[OF m(1)] m(2) r m'(2)
  show "\<exists>s. constructorGameLogic rnd width height = Inr s
           \<and> shaped (oddSize width) (oddSize height) (maze s)
           \<and> goalPosition s = \<lparr>pos_x = width - 2, pos_y = height - 2\<rparr>
           \<and> (\<exists>s'. resetGame rnd' s = Inr s'
                    \<and> shaped (oddSize width) (oddSize height) (maze s')
                    \<and> goalPosition s' =
                         \<lparr>pos_x = oddSize width - 2, pos_y = oddSize height - 2\<rparr>)"
    by (intro exI[of _ ?s]) (simp add: newGame_def)
next
  show "oddSize 4 = 5" by (simp add: oddSize_def)
next
  have b: "3 \<le> oddSize 4" by (simp add: oddSize_def)
  from generateMaze_props[OF b b, of rnd] obtain m where
    m: "generateMaze rnd 4 4 = Inr m" "shaped 5 5 m" "carvedInside 5 5 m"
    by (auto simp: oddSize_def)
  have b5: "3 \<le> oddSize 5" by (simp add: oddSize_def)
  from generateMaze_props[OF b5 b5, of rnd'] obtain m' where
    m': "generateMaze rnd' 5 5 = Inr m'" "shaped 5 5 m'"
        "\<forall>c. lattice 5 5 c \<longrightarrow> openCell m' c"
    by (auto simp: oddSize_def)
  let ?s = "newGame 4 4 m"
  have w: "cellIs m (2, 2) CELL_WALL"
    by (rule carvedInside_even_wall[OF m(3)]) (simp_all add: inGrid_def)
  have "shaped 5 5 (maze ?s)" using m(2) by (simp add: newGame_def)
  from resetGame_newGame[OF this _ m'(1)] have r: "resetGame rnd' ?s = Inr (newGame 5 5 m')"
    by simp
  have "lattice 5 5 (3, 3)" by (simp add: lattice_def interior_def)
  with m'(3) have "openCell m' (3, 3)" by blast
  then have e: "cellIs m' (3, 3) CELL_EMPTY" by (simp add: openCell_def cellIs_def)
  from constructorGameLogic_newGame[OF m(1)] m(2) w r m'(2) e
  show "\<exists>s. constructorGameLogic rnd 4 4 = Inr s
           \<and> shaped 5 5 (maze s)
           \<and> goalPosition s = \<lparr>pos_x = 2, pos_y = 2\<rparr>
           \<and> cellIs (maze s) (2, 2) CELL_WALL
           \<and> (\<exists>s'. resetGame rnd' s = Inr s' \<and> shaped 5 5 (maze s')
                    \<and> goalPosition s' = \<lparr>pos_x = 3, pos_y = 3\<rparr>
                    \<and> cellIs (maze s') (3, 3) CELL_EMPTY)"
    by (intro exI[of _ ?s]) (simp add: newGame_def)
qed

theorem constructorGameLogic_goal_from_requested_size_witness:
  "3 \<le> oddSize 4
   \<and> constructorGameLogic (\<lambda>k. 0) 4 4 = Inr (newGame 4 4 mazeB)
   \<and> goalPosition (newGame 4 4 mazeB) = \<lparr>pos_x = 2, pos_y = 2\<rparr>
   \<and> length mazeB = 5 \<and> length (hd mazeB) = 5
   \<and> cellIs mazeB (2, 2) CELL_WALL
   \<and> resetGame (\<lambda>k. 0) (newGame 4 4 mazeB) = Inr (newGame 5 5 mazeB)
   \<and> goalPosition (newGame 5 5 mazeB) = \<lparr>pos_x = 3, pos_y = 3\<rparr>"
proof -
  have e: "constructorGameLogic (\<lambda>k. 0) 4 4 = Inr (newGame 4 4 mazeB)"
    "resetGame (\<lambda>k. 0) (newGame 4 4 mazeB) = Inr (newGame 5 5 mazeB)"
    "length mazeB = 5" "length (hd mazeB) = 5" "3 \<le> oddSize 4"
    by code_simp+
  from constructorGameLogic_goal_from_requested_size[of 4 4 "\<lambda>k. 0" "\<lambda>k. 0"] e
  show ?thesis by (auto simp: newGame_def)
qed

text \<open>
  C6, the claim as stated: on a blocked move the returned \<open>distanceToGoal\<close> is the
  current shortest distance from the player to the goal. It fails in the corridor
  version of the engine: on the 7 by 9 corridor grid the moves south, south, south,
  east, east, south bring the player to (3,5); the cell south of it is a wall, and the
  blocked move south returns 4, the Manhattan distance to the goal (5,7), while the
  shortest path has 6 hops.
\<close>

theorem movePlayerCorridor_blocked_counterexample:
  "constructorCorridor 7 9 = Inr (stateD 1 1 0)
   \<and> playCorridor (stateD 1 1 0) [south, south, south, east, east, south] = stateD 3 5 6
   \<and> targetBlocked (stateD 3 5 6) south
   \<and> movePlayerCorridor (stateD 3 5 6) south =
       (Inr \<lparr>success = False, hitWall = True, isCorrectDirection = False, distanceToGoal = 4\<rparr>,
        stateD 3 5 6)
   \<and> hops mazeD (3, 5) 6 (5, 7)
   \<and> \<not> (\<exists>k < 6. hops mazeD (3, 5) k (5, 7))
   \<and> getDistanceToGoal (stateD 3 5 6) = Inr 6"
proof (intro conjI)
  show "constructorCorridor 7 9 = Inr (stateD 1 1 0)" by (rule stateD_generated)
  show "playCorridor (stateD 1 1 0) [south, south, south, east, east, south] = stateD 3 5 6"
    by (rule stateD_reached)
  show "targetBlocked (stateD 3 5 6) south" by code_simp
  show "movePlayerCorridor (stateD 3 5 6) south =
       (Inr \<lparr>success = False, hitWall = True, isCorrectDirection = False, distanceToGoal = 4\<rparr>,
        stateD 3 5 6)"
    by code_simp
  show "hops mazeD (3, 5) 6 (5, 7)" using stateD_shortest by (simp add: exactHops_def)
  show "\<not> (\<exists>k < 6. hops mazeD (3, 5) k (5, 7))"
    using stateD_shortest by (simp add: exactHops_def)
  show "getDistanceToGoal (stateD 3 5 6) = Inr 6" by code_simp
qed

text \<open>
  C6, amended. When the target cell is outside the grid or a wall, \<open>movePlayer\<close> changes
  nothing in the state (position, move count, won flag, grid) in either version of the
  engine and returns \<open>success = False\<close>, \<open>hitWall = True\<close>, \<open>isCorrectDirection = False\<close> and
  as \<open>distanceToGoal\<close> what that version's \<^verbatim>\<open>getDistanceToGoal\<close> gives for the unchanged
  position: in the version with the search the shortest hop count from the player to
  the goal (9999 when there is no path), on every state the search runs on, and an
  exception with the state unchanged on the others; in the corridor version the
  Manhattan distance from the player to the goal, on every state with a non-empty grid.
\<close>

theorem movePlayer_blocked_no_mutation:
  assumes "targetBlocked s d"
  shows "snd (movePlayer s d) = s
         \<and> (searchable s \<longrightarrow>
              (\<exists>dist. fst (movePlayer s d) =
                        Inr \<lparr>success = False, hitWall = True, isCorrectDirection = False,
                             distanceToGoal = dist\<rparr>
                 \<and> getDistanceToGoal s = Inr dist
                 \<and> bfsResult (maze s) (cellOf (playerPosition s)) (cellOf (goalPosition s)) dist))
         \<and> (\<not> searchable s \<longrightarrow> fst (movePlayer s d) = Inl TypeError)
         \<and> snd (movePlayerCorridor s d) = s
         \<and> (maze s \<noteq> [] \<longrightarrow>
              fst (movePlayerCorridor s d) =
                Inr \<lparr>success = False, hitWall = True, isCorrectDirection = False,
                     distanceToGoal = getDistance (playerPosition s) (goalPosition s)\<rparr>)
         \<and> (maze s = [] \<longrightarrow>
              fst (movePlayerCorridor s d) =
                (if 0 \<le> pos_x (getNewPosition s d) then Inl TypeError
                 else Inr \<lparr>success = False, hitWall = True, isCorrectDirection = False,
                          distanceToGoal = getDistance (playerPosition s) (goalPosition s)\<rparr>))"
proof (intro conjI impI)
  show "snd (movePlayer s d) = s"
    by (simp add: movePlayer_blocked[OF assms] split: sum.splits)
next
  assume "searchable s"
  then obtain dist where "getDistanceToGoal s = Inr dist"
    "bfsResult (maze s) (cellOf (playerPosition s)) (cellOf (goalPosition s)) dist"
    using getDistanceToGoal_searchable by blast
  then show "\<exists>dist. fst (movePlayer s d) =
                        Inr \<lparr>success = False, hitWall = True, isCorrectDirection = False,
                             distanceToGoal = dist\<rparr>
                 \<and> getDistanceToGoal s = Inr dist
                 \<and> bfsResult (maze s) (cellOf (playerPosition s)) (cellOf (goalPosition s)) dist"
    by (simp add: movePlayer_blocked[OF assms])
next
  assume "\<not> searchable s"
  then have "getDistanceToGoal s = Inl TypeError"
    by (auto simp: searchable_def getDistanceToGoal_def Let_def)
  then show "fst (movePlayer s d) = Inl TypeError"
    by (simp add: movePlayer_blocked[OF assms])
next
  show "snd (movePlayerCorridor s d) = s"
    by (simp add: movePlayerCorridor_blocked[OF assms])
next
  assume "maze s \<noteq> []"
  from isValidPosition_searchable[OF this, of "getNewPosition s d"]
  show "fst (movePlayerCorridor s d) =
                Inr \<lparr>success = False, hitWall = True, isCorrectDirection = False,
                     distanceToGoal = getDistance (playerPosition s) (goalPosition s)\<rparr>"
    by (simp add: movePlayerCorridor_blocked[OF assms])
next
  assume "maze s = []"
  then show "fst (movePlayerCorridor s d) =
                (if 0 \<le> pos_x (getNewPosition s d) then Inl TypeError
                 else Inr \<lparr>success = False, hitWall = True, isCorrectDirection = False,
                          distanceToGoal = getDistance (playerPosition s) (goalPosition s)\<rparr>)"
    by (simp add: movePlayerCorridor_blocked[OF assms] isValidPosition_def)
qed

theorem movePlayer_blocked_no_mutation_witness:
  "targetBlocked (stateA 1 1 False 0) north \<and> searchable (stateA 1 1 False 0)
   \<and> snd (movePlayer (stateA 1 1 False 0) north) = stateA 1 1 False 0
   \<and> fst (movePlayer (stateA 1 1 False 0) north) =
        Inr \<lparr>success = False, hitWall = True, isCorrectDirection = False, distanceToGoal = 12\<rparr>
   \<and> targetBlocked ((stateA 1 1 False 0)\<lparr>maze := []\<rparr>) north
   \<and> \<not> searchable ((stateA 1 1 False 0)\<lparr>maze := []\<rparr>)
   \<and> movePlayer ((stateA 1 1 False 0)\<lparr>maze := []\<rparr>) north =
        (Inl TypeError, (stateA 1 1 False 0)\<lparr>maze := []\<rparr>)
   \<and> movePlayerCorridor ((stateA 1 1 False 0)\<lparr>maze := []\<rparr>) north =
        (Inl TypeError, (stateA 1 1 False 0)\<lparr>maze := []\<rparr>)
   \<and> targetBlocked (stateD 3 5 6) south \<and> maze (stateD 3 5 6) \<noteq> []
   \<and> movePlayerCorridor (stateD 3 5 6) south =
        (Inr \<lparr>success = False, hitWall = True, isCorrectDirection = False, distanceToGoal = 4\<rparr>,
         stateD 3 5 6)"
proof -
  let ?e = "(stateA 1 1 False 0)\<lparr>maze := []\<rparr>"
  have h: "targetBlocked (stateA 1 1 False 0) north" "searchable (stateA 1 1 False 0)"
    by code_simp+
  have g: "getDistanceToGoal (stateA 1 1 False 0) = Inr 12" by code_simp
  have e: "targetBlocked ?e north" "\<not> searchable ?e" "maze ?e = []"
    "0 \<le> pos_x (getNewPosition ?e north)"
    by (simp_all add: targetBlocked_def inBounds_def searchable_def stateA_def
        getNewPosition_def)
  have k: "targetBlocked (stateD 3 5 6) south" "maze (stateD 3 5 6) \<noteq> []"
    "getDistance (playerPosition (stateD 3 5 6)) (goalPosition (stateD 3 5 6)) = 4"
    by code_simp+
  from movePlayer_blocked_no_mutation[OF e(1)] e(2,3,4)
  have 1: "movePlayer ?e north = (Inl TypeError, ?e)"
    and 2: "movePlayerCorridor ?e north = (Inl TypeError, ?e)"
    by (metis prod.collapse)+
  from movePlayer_blocked_no_mutation[OF k(1)] k(2,3)
  have 3: "movePlayerCorridor (stateD 3 5 6) south =
        (Inr \<lparr>success = False, hitWall = True, isCorrectDirection = False, distanceToGoal = 4\<rparr>,
         stateD 3 5 6)"
    by (metis prod.collapse)
  from movePlayer_blocked_no_mutation[OF h(1)] h g e k 1 2 3 show ?thesis by auto
qed

text \<open>
  C7. \<open>getDistanceToGoal\<close> is the breadth-first search of the source: a first-in
  first-out queue (\<open>bfsLoop\<close> takes the head, \<open>scanDirections\<close> appends), cells marked
  when they are enqueued, the four axis neighbours, only in-bounds EMPTY cells entered.
  On every grid, connected or not, and every player and goal position for which the
  search runs (the grid has a row and the player's row is inside it), it returns the
  least number of hops from the player's cell to the goal's, and 9999 when no path
  exists.
\<close>

theorem getDistanceToGoal_shortest_path:
  assumes "searchable s"
  shows "\<exists>d. getDistanceToGoal s = Inr d \<and>
           (if (\<exists>n. hops (maze s) (cellOf (playerPosition s)) n (cellOf (goalPosition s)))
            then (\<exists>n. d = int n
                    \<and> hops (maze s) (cellOf (playerPosition s)) n (cellOf (goalPosition s))
                    \<and> (\<forall>k < n. \<not> hops (maze s) (cellOf (playerPosition s)) k
                                     (cellOf (goalPosition s))))
            else d = 9999)"
  using getDistanceToGoal_searchable[OF assms] unfolding bfsResult_def exactHops_def .

theorem getDistanceToGoal_shortest_path_witness:
  "searchable (stateA 1 1 False 0)
   \<and> getDistanceToGoal (stateA 1 1 False 0) = Inr 12
   \<and> hops mazeA (1, 1) 12 (5, 5)
   \<and> \<not> hops mazeA (1, 1) 11 (5, 5)"
proof -
  have h: "searchable (stateA 1 1 False 0)" by code_simp
  have g: "getDistanceToGoal (stateA 1 1 False 0) = Inr 12" by code_simp
  have c: "maze (stateA 1 1 False 0) = mazeA"
    "cellOf (playerPosition (stateA 1 1 False 0)) = (1, 1)"
    "cellOf (goalPosition (stateA 1 1 False 0)) = (5, 5)"
    by (simp_all add: stateA_def cellOf_def)
  from getDistanceToGoal_shortest_path[OF h] g
  have r: "(if (\<exists>n. hops mazeA (1, 1) n (5, 5))
            then (\<exists>n. (12::int) = int n \<and> hops mazeA (1, 1) n (5, 5)
                    \<and> (\<forall>k < n. \<not> hops mazeA (1, 1) k (5, 5)))
            else (12::int) = 9999)"
    unfolding c by simp
  then have "\<exists>n. (12::int) = int n \<and> hops mazeA (1, 1) n (5, 5)
                    \<and> (\<forall>k < n. \<not> hops mazeA (1, 1) k (5, 5))"
    by (cases "\<exists>n. hops mazeA (1, 1) n (5, 5)") simp_all
  then obtain n where n: "(12::int) = int n" "hops mazeA (1, 1) n (5, 5)"
    "\<forall>k < n. \<not> hops mazeA (1, 1) k (5, 5)" by blast
  from n(1) have "n = 12" by linarith
  with n(2,3) have "hops mazeA (1, 1) 12 (5, 5)" "\<not> hops mazeA (1, 1) 11 (5, 5)" by simp_all
  with h g show ?thesis by simp
qed

text \<open>
  C8. For every effect name and pan value, \<open>playSound\<close> on a system that is not
  initialized, or with a name that has no cached buffer, returns the system as it was:
  no node is created, nothing is connected or started, no warning is printed. The
  function has no result other than the state: the guard reads two fields, and whatever
  the calls after it throw is caught inside the function.
\<close>

theorem playSound_silent_noop:
  "\<not> isInitialized a \<or> sounds a soundName = None \<Longrightarrow> playSound a soundName panValue = a"
  by (simp add: playSound_def)

theorem playSound_silent_noop_witness:
  "isInitialized stageA \<and> sounds stageA ''nonexistent-effect'' = None
   \<and> playSound stageA ''nonexistent-effect'' 0 = stageA
   \<and> \<not> isInitialized (stageA\<lparr>isInitialized := False\<rparr>)
   \<and> playSound (stageA\<lparr>isInitialized := False\<rparr>) ''footstep-normal'' 0 =
        stageA\<lparr>isInitialized := False\<rparr>
   \<and> started (audioContext (playSound stageA ''footstep-normal'' 2)) = [0]
   \<and> nodes (audioContext (playSound stageA ''footstep-normal'' 2)) =
        [BufferSourceNode (Some [0, 1 / 2]), GainNode, StereoPannerNode 1]"
proof -
  have h: "sounds stageA ''nonexistent-effect'' = None" by (simp add: stageA_def)
  have i: "isInitialized stageA" by (simp add: stageA_def)
  have u: "\<not> isInitialized (stageA\<lparr>isInitialized := False\<rparr>)" by simp
  have p: "started (audioContext (playSound stageA ''footstep-normal'' 2)) = [0]"
    "nodes (audioContext (playSound stageA ''footstep-normal'' 2)) =
        [BufferSourceNode (Some [0, 1 / 2]), GainNode, StereoPannerNode 1]"
    by (simp_all add: playSound_def stageA_def createNode_def connect_def Let_def)
  from playSound_silent_noop[of stageA "''nonexistent-effect''" 0]
       playSound_silent_noop[of "stageA\<lparr>isInitialized := False\<rparr>" "''footstep-normal''" 0]
       h i u p
  show ?thesis by simp
qed

text \<open>
  C9. Every outcome \<open>movePlayer\<close> returns has \<open>hitWall\<close> equal to the negation of
  \<open>success\<close>: exactly one of the two flags is true.
\<close>

theorem movePlayer_hitWall_not_success:
  "fst (movePlayer s d) = Inr out \<Longrightarrow> hitWall out = (\<not> success out)"
  by (auto simp: movePlayer_def Let_def split: sum.splits if_splits)

theorem movePlayer_hitWall_not_success_witness:
  "fst (movePlayer (stateA 1 1 False 0) south) =
     Inr \<lparr>success = True, hitWall = False, isCorrectDirection = True, distanceToGoal = 7\<rparr>
   \<and> hitWall \<lparr>success = True, hitWall = False, isCorrectDirection = True, distanceToGoal = 7\<rparr>
       = (\<not> success \<lparr>success = True, hitWall = False, isCorrectDirection = True,
                      distanceToGoal = 7\<rparr>)"
proof -
  have h: "fst (movePlayer (stateA 1 1 False 0) south) =
     Inr \<lparr>success = True, hitWall = False, isCorrectDirection = True, distanceToGoal = 7\<rparr>"
    by code_simp
  from movePlayer_hitWall_not_success[OF h] h show ?thesis by blast
qed

text \<open>
  C10. Every grid of either carve, from 3 by 3 cells on, keeps its outer ring (row 0,
  the last row, column 0, the last column) as walls, and every EMPTY cell lies strictly
  inside the ring, so a player on an EMPTY cell is never on the border. For the
  depth-first carve the sizes are the adjusted ones.
\<close>

theorem generated_border_is_wall:
  "(3 \<le> oddSize width \<and> 3 \<le> oddSize height \<longrightarrow>
      (\<exists>m. generateMaze rnd width height = Inr m
          \<and> shaped (oddSize width) (oddSize height) m
          \<and> borderIsWall (oddSize width) (oddSize height) m
          \<and> (\<forall>c. openCell m c \<longrightarrow> interior (oddSize width) (oddSize height) c)))
   \<and> (3 \<le> w \<and> 3 \<le> h \<longrightarrow>
      (\<exists>m. generateMazeCorridor w h = Inr m
          \<and> shaped w h m
          \<and> borderIsWall w h m
          \<and> (\<forall>c. openCell m c \<longrightarrow> interior w h c)))"
proof (intro conjI impI)
  assume a: "3 \<le> oddSize width \<and> 3 \<le> oddSize height"
  then have b: "3 \<le> oddSize width" "3 \<le> oddSize height" by simp_all
  from generateMaze_props[OF b, of rnd] obtain m where
    m: "generateMaze rnd width height = Inr m" "shaped (oddSize width) (oddSize height) m"
       "carvedInside (oddSize width) (oddSize height) m"
    by blast
  from b have hp: "0 < oddSize height" by simp
  have "interior (oddSize width) (oddSize height) c" if "openCell m c" for c
    using that carvedInside_open_interior[OF m(3)] unfolding openCell_shaped[OF m(2) hp]
    by blast
  with m(1,2) carvedInside_border[OF m(3)]
  show "\<exists>m. generateMaze rnd width height = Inr m
          \<and> shaped (oddSize width) (oddSize height) m
          \<and> borderIsWall (oddSize width) (oddSize height) m
          \<and> (\<forall>c. openCell m c \<longrightarrow> interior (oddSize width) (oddSize height) c)"
    by blast
next
  assume a: "3 \<le> w \<and> 3 \<le> h"
  then have b: "3 \<le> w" "3 \<le> h" by simp_all
  from createPath_props[OF b] obtain m where
    m: "generateMazeCorridor w h = Inr m" "shaped w h m"
      "\<forall>c. inGrid w h c \<longrightarrow> cellIs m c CELL_WALL \<or> (cellIs m c CELL_EMPTY \<and> interior w h c)"
    by blast
  from b have hp: "0 < h" by simp
  have "interior w h c" if "openCell m c" for c
    using that m(3) cellIs_not_both[of m c] unfolding openCell_shaped[OF m(2) hp]
    by blast
  moreover from m(3) have "borderIsWall w h m" unfolding borderIsWall_def by blast
  ultimately show "\<exists>m. generateMazeCorridor w h = Inr m \<and> shaped w h m
          \<and> borderIsWall w h m \<and> (\<forall>c. openCell m c \<longrightarrow> interior w h c)"
    using m(1,2) by blast
qed

theorem generated_border_is_wall_witness:
  "3 \<le> oddSize 7 \<and> generateMaze (\<lambda>k. 0) 7 7 = Inr mazeA \<and> borderIsWall 7 7 mazeA
   \<and> cellIs mazeA (0, 3) CELL_WALL \<and> cellIs mazeA (6, 6) CELL_WALL
   \<and> generateMazeCorridor 7 7 = Inr mazeC \<and> borderIsWall 7 7 mazeC
   \<and> cellIs mazeC (3, 0) CELL_WALL"
proof -
  have o: "oddSize 7 = 7" by (simp add: oddSize_def)
  have e: "generateMaze (\<lambda>k. 0) 7 7 = Inr mazeA" "generateMazeCorridor 7 7 = Inr mazeC"
    by code_simp+
  from generated_border_is_wall[of 7 7 "\<lambda>k. 0" 7 7] e
  have b: "borderIsWall 7 7 mazeA" "borderIsWall 7 7 mazeC"
    unfolding o by auto
  have i: "inGrid 7 7 (0, 3) \<and> \<not> interior 7 7 (0, 3)" "inGrid 7 7 (6, 6) \<and> \<not> interior 7 7 (6, 6)"
    "inGrid 7 7 (3, 0) \<and> \<not> interior 7 7 (3, 0)"
    by (simp_all add: inGrid_def interior_def)
  from b i have "cellIs mazeA (0, 3) CELL_WALL" "cellIs mazeA (6, 6) CELL_WALL"
    "cellIs mazeC (3, 0) CELL_WALL"
    unfolding borderIsWall_def by blast+
  with e b o show ?thesis by simp
qed

section \<open>Further properties\<close>

text \<open>
  With odd requested sizes from 3 on, whatever the random draws, the constructor of the
  depth-first engine returns a game whose start and goal are EMPTY and connected, and
  the search from the start returns the length of a shortest path.
\<close>

theorem generateMaze_solvable_odd:
  assumes "odd width" "odd height" "3 \<le> width" "3 \<le> height"
  shows "\<exists>s n. constructorGameLogic rnd width height = Inr s
           \<and> openCell (maze s) (1, 1) \<and> openCell (maze s) (cellOf (goalPosition s))
           \<and> hops (maze s) (cellOf (playerPosition s)) n (cellOf (goalPosition s))
           \<and> (\<forall>k < n. \<not> hops (maze s) (cellOf (playerPosition s)) k (cellOf (goalPosition s)))
           \<and> getDistanceToGoal s = Inr (int n)"
proof -
  from assms have o: "oddSize width = width" "oddSize height = height"
    by (simp_all add: oddSize_def odd_iff_mod_2_eq_one)
  with assms have b: "3 \<le> oddSize width" "3 \<le> oddSize height" by simp_all
  from generateMaze_props[OF b, of rnd] obtain m where
    m: "generateMaze rnd width height = Inr m" "shaped width height m"
       "\<forall>c. lattice width height c \<longrightarrow> openCell m c"
       "\<forall>c. openCell m c \<longrightarrow> (\<exists>n. hops m (1, 1) n c)"
    unfolding o by blast
  let ?s = "newGame width height m"
  have c: "maze ?s = m" "cellOf (playerPosition ?s) = (1, 1)"
    "cellOf (goalPosition ?s) = (width - 2, height - 2)"
    by (simp_all add: newGame_def cellOf_def)
  from assms have "lattice width height (1, 1)" "lattice width height (width - 2, height - 2)"
    by (simp_all add: lattice_def interior_def)
  with m(3) have op: "openCell m (1, 1)" "openCell m (width - 2, height - 2)" by blast+
  with m(4) have reach: "\<exists>n. hops m (1, 1) n (width - 2, height - 2)" by blast
  from assms(4) have "searchable ?s" by (intro searchable_newGame[OF m(2)]) simp
  from getDistanceToGoal_searchable[OF this] reach obtain n where
    "getDistanceToGoal ?s = Inr (int n)" "exactHops m (1, 1) n (width - 2, height - 2)"
    unfolding c bfsResult_def by auto
  with op constructorGameLogic_newGame[OF m(1)] show ?thesis
    unfolding exactHops_def using c by (intro exI[of _ ?s] exI[of _ n]) simp
qed

theorem generateMaze_solvable_odd_witness:
  "odd (7::int) \<and> (3::int) \<le> 7
   \<and> constructorGameLogic (\<lambda>k. 0) 7 7 = Inr (stateA 1 1 False 0)
   \<and> openCell mazeA (1, 1) \<and> openCell mazeA (5, 5)
   \<and> getDistanceToGoal (stateA 1 1 False 0) = Inr 12
   \<and> hops mazeA (1, 1) 12 (5, 5)"
proof -
  have o: "odd (7::int)" "(3::int) \<le> 7" by simp_all
  from generateMaze_solvable_odd[OF o(1) o(1) o(2) o(2), of "\<lambda>k. 0"] obtain s n where
    s: "constructorGameLogic (\<lambda>k. 0) 7 7 = Inr s"
       "openCell (maze s) (1, 1)" "openCell (maze s) (cellOf (goalPosition s))"
       "hops (maze s) (cellOf (playerPosition s)) n (cellOf (goalPosition s))"
       "getDistanceToGoal s = Inr (int n)"
    by blast
  from s(1) stateA_generated have e: "s = stateA 1 1 False 0" by simp
  have c: "maze (stateA 1 1 False 0) = mazeA"
    "cellOf (playerPosition (stateA 1 1 False 0)) = (1, 1)"
    "cellOf (goalPosition (stateA 1 1 False 0)) = (5, 5)"
    by (simp_all add: stateA_def cellOf_def)
  have g: "getDistanceToGoal (stateA 1 1 False 0) = Inr 12" by code_simp
  with s(5) e have "n = 12" by simp
  with s e c g o stateA_generated show ?thesis by simp
qed

text \<open>
  From 3 by 3 cells on, the constructor of the corridor engine returns a game whose
  start and goal are EMPTY and connected: along row 1 and down the last inner column.
\<close>

theorem corridor_solvable:
  assumes "3 \<le> width" "3 \<le> height"
  shows "\<exists>s n. constructorCorridor width height = Inr s
           \<and> openCell (maze s) (1, 1) \<and> openCell (maze s) (cellOf (goalPosition s))
           \<and> hops (maze s) (cellOf (playerPosition s)) n (cellOf (goalPosition s))"
proof -
  from corridor_connected[OF assms] obtain m where
    m: "generateMazeCorridor width height = Inr m"
       "openCell m (1, 1)" "openCell m (width - 2, height - 2)"
       "hops m (1, 1) (nat (width - 3) + nat (height - 3)) (width - 2, height - 2)"
    by blast
  then show ?thesis
    by (intro exI[of _ "newGame width height m"] exI[of _ "nat (width - 3) + nat (height - 3)"])
       (simp add: constructorCorridor_def newGame_def cellOf_def)
qed

theorem corridor_solvable_witness:
  "(3::int) \<le> 7 \<and> constructorCorridor 7 7 = Inr (newGame 7 7 mazeC)
   \<and> openCell mazeC (1, 1) \<and> openCell mazeC (5, 5) \<and> (\<exists>n. hops mazeC (1, 1) n (5, 5))"
proof -
  have o: "(3::int) \<le> 7" by simp
  from corridor_solvable[OF o o] obtain s n where
    s: "constructorCorridor 7 7 = Inr s"
       "openCell (maze s) (1, 1)" "openCell (maze s) (cellOf (goalPosition s))"
       "hops (maze s) (cellOf (playerPosition s)) n (cellOf (goalPosition s))"
    by blast
  have e: "constructorCorridor 7 7 = Inr (newGame 7 7 mazeC)" by code_simp
  with s(1) have "s = newGame 7 7 mazeC" by simp
  with s e o show ?thesis by (auto simp: newGame_def cellOf_def)
qed

end
